theory Spec2Isabelle
  imports Main "HOL-Library.Sublist"
begin

section \<open>Paths, file results and configurations\<close>

text \<open>
  Modelled from the spec: \<open>canonical_path\<close> (file-canonical.h is not part of the
  sources at hand). A canonical path is the list of its components below the root, the
  root being the empty list. \<open>parent\<close> drops the last component and reports
  whether it did (\<open>None\<close> is the C++ \<open>false\<close>: the path is the root and stays as it
  is); \<open>append_component\<close> adds one component.
\<close>

type_synonym canonical_path = "string list"

definition parent :: "canonical_path \<Rightarrow> canonical_path option" where
  "parent p = (if p = [] then None else Some (butlast p))"

definition append_component :: "canonical_path \<Rightarrow> string \<Rightarrow> canonical_path" where
  "append_component p file_name = p @ [file_name]"

text \<open>
  Modelled from the spec: \<open>canonical_path_result\<close>. Canonicalization fails with a message,
  or gives the canonical path split into the components that exist and the trailing
  components that do not exist yet (\<open>have_missing_components\<close> is \<open>missing \<noteq> []\<close>,
  \<open>drop_missing_components\<close> keeps the existing part).
\<close>

datatype canonical_path_result =
    Canonicalize_failed string
  | Canonicalized canonical_path "string list"

text \<open>
  \<open>read_file_result\<close>: the content, or an error message with the flag
  \<open>is_not_found_error\<close>.
\<close>

datatype read_file_result =
    Read_ok string
  | Read_failed string bool

text \<open>
  Modelled from the spec: \<open>configuration\<close> (configuration.cpp is not part of the sources
  at hand). The loader and the detector use four operations of it. The value keeps the
  recorded path of the config file and the buffers loaded since the last reset;
  \<open>reset\<close> forgets what was loaded and keeps the recorded path (the detector sets the
  path only when the entry is new, and its tests read the path back after a reload).
\<close>

record configuration =
  config_file_path :: "canonical_path option"
  loaded_json :: "string list"

definition default_configuration :: configuration where
  "default_configuration = \<lparr>config_file_path = None, loaded_json = []\<rparr>"

definition set_config_file_path :: "canonical_path \<Rightarrow> configuration \<Rightarrow> configuration" where
  "set_config_file_path p c = c\<lparr>config_file_path := Some p\<rparr>"

definition reset :: "configuration \<Rightarrow> configuration" where
  "reset c = c\<lparr>loaded_json := []\<rparr>"

definition load_from_json :: "string \<Rightarrow> configuration \<Rightarrow> configuration" where
  "load_from_json json c = c\<lparr>loaded_json := loaded_json c @ [json]\<rparr>"

section \<open>The cache of loaded config files\<close>

text \<open>
  \<open>loaded_config_file\<close> is the value type of the map \<open>loaded_config_files_\<close>, in the
  loader and in the detector alike.
\<close>

record loaded_config_file =
  file_content :: string
  config :: configuration

definition new_loaded_config_file :: loaded_config_file where
  "new_loaded_config_file = \<lparr>file_content = [], config = default_configuration\<rparr>"

text \<open>
  \<open>std::unordered_map<canonical_path, loaded_config_file>\<close> as an explicit store. The
  map owns one node per key, and the code hands out the addresses of nodes
  (\<open>&it->second\<close>, \<open>&it->second.config\<close>). The store is the list of the nodes in the
  order of their allocation; the address of a node is its position in that list.
  The code at hand never erases from the map, so the model has no erase.
\<close>

type_synonym config_files = "(canonical_path \<times> loaded_config_file) list"

fun find_node :: "canonical_path \<Rightarrow> config_files \<Rightarrow> nat option" where
  "find_node k [] = None"
| "find_node k (n # ns) =
     (if fst n = k then Some 0 else map_option Suc (find_node k ns))"

text \<open>
  \<open>emplace(key)\<close> with a default-constructed value: the address of the node of the key,
  whether a node was inserted, and the store.
\<close>

definition emplace :: "canonical_path \<Rightarrow> config_files \<Rightarrow> nat \<times> bool \<times> config_files" where
  "emplace k ns =
     (case find_node k ns of
        Some i \<Rightarrow> (i, False, ns)
      | None \<Rightarrow> (length ns, True, ns @ [(k, new_loaded_config_file)]))"

text \<open>Writing through the pointer to a node: the key of the node stays.\<close>

definition update_node ::
  "nat \<Rightarrow> (loaded_config_file \<Rightarrow> loaded_config_file) \<Rightarrow> config_files \<Rightarrow> config_files" where
  "update_node i f ns = ns[i := (fst (ns ! i), f (snd (ns ! i)))]"

text \<open>
  A \<open>configuration*\<close> handed to the host: the address of \<open>default_config_\<close>, or the
  address of the configuration inside a node of the store.
\<close>

datatype config_ptr = Default_config | Loaded_config nat

text \<open>
  \<open>configuration_change\<close>. The field \<open>watched_path\<close> points at a string owned by the
  loader or the detector, which never changes once stored; the model keeps the string.
\<close>

record configuration_change =
  watched_path :: string
  changed_config :: config_ptr

definition config_file_names :: "string list" where
  "config_file_names = [''quick-lint-js.config'', ''.quick-lint-js.config'']"

section \<open>configuration_loader (configuration-loader.cpp)\<close>

text \<open>
  The filesystem the loader is given: \<open>canonicalize_path\<close> and \<open>read_file\<close> of one
  canonical path. The functions stand for the disk at the time of the call.
\<close>

record loader_filesystem =
  canonicalize_path :: "string \<Rightarrow> canonical_path_result"
  read_file :: "canonical_path \<Rightarrow> read_file_result"

record configuration_loader =
  watched_paths :: "string list"
  loaded_config_files :: config_files
  input_path_config_files :: "string \<rightharpoonup> canonical_path"

definition new_configuration_loader :: configuration_loader where
  "new_configuration_loader =
     \<lparr>watched_paths = [], loaded_config_files = [], input_path_config_files = Map.empty\<rparr>"

datatype configuration_or_error = Config_ok config_ptr | Config_error string

record file_to_lint =
  path :: "string option"
  config_file :: "string option"

record found_config_file =
  found_path :: "canonical_path option"
  already_loaded :: "nat option"
  found_file_content :: string
  found_error :: string

definition get_loaded_config :: "configuration_loader \<Rightarrow> canonical_path \<Rightarrow> nat option" where
  "get_loaded_config s p = find_node p (loaded_config_files s)"

text \<open>
  The inner loop of \<open>find_config_file_in_directory_and_ancestors\<close> over the file names:
  \<open>Some\<close> is a \<open>return\<close> from inside the loop, \<open>None\<close> is the loop running out of
  names.
\<close>

fun find_config_file_in_directory ::
  "loader_filesystem \<Rightarrow> configuration_loader \<Rightarrow> canonical_path \<Rightarrow> bool \<Rightarrow> string list \<Rightarrow>
   found_config_file option" where
  "find_config_file_in_directory fs s parent_directory check_loaded [] = None"
| "find_config_file_in_directory fs s parent_directory check_loaded (file_name # file_names) =
     (let config_path = append_component parent_directory file_name in
      case (if check_loaded then get_loaded_config s config_path else None) of
        Some entry \<Rightarrow>
          Some \<lparr>found_path = Some config_path, already_loaded = Some entry,
                found_file_content = [], found_error = []\<rparr>
      | None \<Rightarrow>
          (case read_file fs config_path of
             Read_ok content \<Rightarrow>
               Some \<lparr>found_path = Some config_path, already_loaded = None,
                     found_file_content = content, found_error = []\<rparr>
           | Read_failed err is_not_found_error \<Rightarrow>
               if \<not> is_not_found_error then
                 Some \<lparr>found_path = Some config_path, already_loaded = None,
                       found_file_content = [], found_error = err\<rparr>
               else find_config_file_in_directory fs s parent_directory check_loaded file_names))"

function find_config_file_in_directory_and_ancestors ::
  "loader_filesystem \<Rightarrow> configuration_loader \<Rightarrow> canonical_path \<Rightarrow> bool \<Rightarrow> found_config_file" where
  "find_config_file_in_directory_and_ancestors fs s parent_directory check_loaded =
     (case find_config_file_in_directory fs s parent_directory check_loaded config_file_names of
        Some found \<Rightarrow> found
      | None \<Rightarrow>
          (case parent parent_directory of
             None \<Rightarrow>
               \<lparr>found_path = None, already_loaded = None,
                found_file_content = [], found_error = []\<rparr>
           | Some p \<Rightarrow> find_config_file_in_directory_and_ancestors fs s p check_loaded))"
  by pat_completeness auto
termination
  by (relation "measure (\<lambda>(fs, s, d, c). length d)")
     (auto simp: parent_def split: if_splits)

declare find_config_file_in_directory_and_ancestors.simps [simp del]

text \<open>
  The process aborts on a failed \<open>QLJS_ASSERT\<close> and on \<open>QLJS_UNIMPLEMENTED\<close>: the
  operations return an option, \<open>None\<close> being the abort.
\<close>

definition load_into_node ::
  "nat \<Rightarrow> string \<Rightarrow> canonical_path \<Rightarrow> config_files \<Rightarrow> config_files" where
  "load_into_node i content p ns =
     update_node i (\<lambda>e. \<lparr>file_content = content,
        config = load_from_json content (set_config_file_path p (config e))\<rparr>) ns"

definition load_config_file ::
  "loader_filesystem \<Rightarrow> string \<Rightarrow> configuration_loader \<Rightarrow>
   (configuration_or_error \<times> configuration_loader) option" where
  "load_config_file fs config_path s =
     (case canonicalize_path fs config_path of
        Canonicalize_failed err \<Rightarrow> Some (Config_error err, s)
      | Canonicalized existing missing \<Rightarrow>
          (let canonical = existing @ missing in
           case get_loaded_config s canonical of
             Some entry \<Rightarrow> Some (Config_ok (Loaded_config entry), s)
           | None \<Rightarrow>
               (case read_file fs canonical of
                  Read_failed err is_not_found_error \<Rightarrow> Some (Config_error err, s)
                | Read_ok content \<Rightarrow>
                    (case emplace canonical (loaded_config_files s) of
                       (entry, inserted, ns) \<Rightarrow>
                         if \<not> inserted then None
                         else Some (Config_ok (Loaded_config entry),
                           s\<lparr>loaded_config_files :=
                               load_into_node entry content canonical ns\<rparr>)))))"

definition find_and_load_config_file_in_directory_and_ancestors ::
  "loader_filesystem \<Rightarrow> canonical_path \<Rightarrow> string option \<Rightarrow> configuration_loader \<Rightarrow>
   (configuration_or_error \<times> configuration_loader) option" where
  "find_and_load_config_file_in_directory_and_ancestors fs parent_directory input_path s =
     (let found = find_config_file_in_directory_and_ancestors fs s parent_directory True in
      if found_error found \<noteq> [] then Some (Config_error (found_error found), s)
      else case found_path found of
        None \<Rightarrow> Some (Config_ok Default_config, s)
      | Some config_path \<Rightarrow>
          (case (case input_path of
                   None \<Rightarrow> Some s
                 | Some ip \<Rightarrow>
                     (case input_path_config_files s ip of
                        Some other \<Rightarrow> None
                      | None \<Rightarrow> Some (s\<lparr>input_path_config_files :=
                                   (input_path_config_files s)(ip \<mapsto> config_path)\<rparr>))) of
             None \<Rightarrow> None
           | Some s1 \<Rightarrow>
               (case already_loaded found of
                  Some entry \<Rightarrow> Some (Config_ok (Loaded_config entry), s1)
                | None \<Rightarrow>
                    (case emplace config_path (loaded_config_files s1) of
                       (entry, inserted, ns) \<Rightarrow>
                         if \<not> inserted then None
                         else Some (Config_ok (Loaded_config entry),
                           s1\<lparr>loaded_config_files :=
                               load_into_node entry (found_file_content found)
                                 config_path ns\<rparr>)))))"

text \<open>
  The directory the walk starts from: the existing part of the canonical path when
  components are missing, the path without its last component otherwise (the result
  of \<open>parent()\<close> is not looked at).
\<close>

definition start_directory :: "canonical_path \<Rightarrow> string list \<Rightarrow> canonical_path" where
  "start_directory existing missing =
     (if missing \<noteq> [] then existing
      else (case parent existing of None \<Rightarrow> existing | Some p \<Rightarrow> p))"

definition find_and_load_config_file_for_input ::
  "loader_filesystem \<Rightarrow> string \<Rightarrow> configuration_loader \<Rightarrow>
   (configuration_or_error \<times> configuration_loader) option" where
  "find_and_load_config_file_for_input fs input_path s =
     (case input_path_config_files s input_path of
        Some config_path \<Rightarrow>
          (case find_node config_path (loaded_config_files s) of
             None \<Rightarrow> None
           | Some entry \<Rightarrow> Some (Config_ok (Loaded_config entry), s))
      | None \<Rightarrow>
          (case canonicalize_path fs input_path of
             Canonicalize_failed err \<Rightarrow> Some (Config_error err, s)
           | Canonicalized existing missing \<Rightarrow>
               find_and_load_config_file_in_directory_and_ancestors fs
                 (start_directory existing missing) (Some input_path) s))"

definition find_and_load_config_file_for_current_directory ::
  "loader_filesystem \<Rightarrow> configuration_loader \<Rightarrow>
   (configuration_or_error \<times> configuration_loader) option" where
  "find_and_load_config_file_for_current_directory fs s =
     (case canonicalize_path fs ''.'' of
        Canonicalize_failed err \<Rightarrow> Some (Config_error err, s)
      | Canonicalized existing missing \<Rightarrow>
          find_and_load_config_file_in_directory_and_ancestors fs
            (if missing \<noteq> [] then existing else existing @ missing) None s)"

text \<open>
  A \<open>std::string\<close> may hold the character NUL; \<open>c_str()\<close> handed to a function that
  takes a \<open>const char*\<close> is read up to the first NUL. A \<open>const char*\<close> is kept as a
  string and read in the same way.
\<close>

definition c_str :: "string \<Rightarrow> string" where
  "c_str str = takeWhile (\<lambda>c. c \<noteq> CHR 0x00) str"

text \<open>
  \<open>load_for_file(const std::string&)\<close>: the string is stored in \<open>watched_paths_\<close>, and
  \<open>file_path.c_str()\<close> is resolved.
\<close>

definition load_for_file ::
  "loader_filesystem \<Rightarrow> string \<Rightarrow> configuration_loader \<Rightarrow>
   (configuration_or_error \<times> configuration_loader) option" where
  "load_for_file fs file_path s =
     find_and_load_config_file_for_input fs (c_str file_path)
       (s\<lparr>watched_paths := watched_paths s @ [file_path]\<rparr>)"

text \<open>\<open>load_for_file(const file_to_lint&)\<close>\<close>

definition load_for_file_to_lint ::
  "loader_filesystem \<Rightarrow> file_to_lint \<Rightarrow> configuration_loader \<Rightarrow>
   (configuration_or_error \<times> configuration_loader) option" where
  "load_for_file_to_lint fs file s =
     (case config_file file of
        Some cf \<Rightarrow> load_config_file fs (c_str cf) s
      | None \<Rightarrow>
          (case path file of
             Some p \<Rightarrow> find_and_load_config_file_for_input fs (c_str p) s
           | None \<Rightarrow> find_and_load_config_file_for_current_directory fs s))"

text \<open>
  One round of the loop of \<open>refresh\<close>, for one watched path: the loader after it and
  the changes it appended.
\<close>

definition refresh_path ::
  "loader_filesystem \<Rightarrow> string \<Rightarrow> configuration_loader \<Rightarrow>
   (configuration_change list \<times> configuration_loader) option" where
  "refresh_path fs input_path s =
     (case canonicalize_path fs input_path of
        Canonicalize_failed err \<Rightarrow> None
      | Canonicalized existing missing \<Rightarrow>
          (let latest = find_config_file_in_directory_and_ancestors fs s
                          (start_directory existing missing) False in
           case found_path latest of
             Some latest_path \<Rightarrow>
               (case get_loaded_config s latest_path of
                  Some loaded \<Rightarrow>
                    if found_file_content latest \<noteq> file_content (snd (loaded_config_files s ! loaded))
                    then Some ([\<lparr>watched_path = input_path, changed_config = Loaded_config loaded\<rparr>],
                      s\<lparr>loaded_config_files :=
                          update_node loaded (\<lambda>e. \<lparr>file_content = found_file_content latest,
                            config = load_from_json (found_file_content latest)
                              (set_config_file_path latest_path (reset (config e)))\<rparr>)
                            (loaded_config_files s)\<rparr>)
                    else Some ([], s)
                | None \<Rightarrow>
                    (case emplace latest_path (loaded_config_files s) of
                       (existing_node, inserted, ns) \<Rightarrow>
                         Some ([\<lparr>watched_path = input_path,
                                 changed_config = Loaded_config existing_node\<rparr>],
                           s\<lparr>loaded_config_files :=
                               update_node existing_node (\<lambda>e. \<lparr>file_content = found_file_content latest,
                                 config = load_from_json (found_file_content latest)
                                   (set_config_file_path latest_path (reset (config e)))\<rparr>) ns\<rparr>)))
           | None \<Rightarrow>
               (case input_path_config_files s input_path of
                  None \<Rightarrow> Some ([], s)
                | Some old \<Rightarrow>
                    Some ([\<lparr>watched_path = input_path, changed_config = Default_config\<rparr>], s))))"

fun refresh_paths ::
  "loader_filesystem \<Rightarrow> string list \<Rightarrow> configuration_change list \<Rightarrow> configuration_loader \<Rightarrow>
   (configuration_change list \<times> configuration_loader) option" where
  "refresh_paths fs [] changes s = Some (changes, s)"
| "refresh_paths fs (input_path # input_paths) changes s =
     (case refresh_path fs input_path s of
        None \<Rightarrow> None
      | Some (new_changes, s1) \<Rightarrow> refresh_paths fs input_paths (changes @ new_changes) s1)"

definition refresh ::
  "loader_filesystem \<Rightarrow> configuration_loader \<Rightarrow>
   (configuration_change list \<times> configuration_loader) option" where
  "refresh fs s = refresh_paths fs (watched_paths s) [] s"

section \<open>configuration_change_detector_impl (configuration-change-detector.cpp)\<close>

text \<open>
  The filesystem the detector is given (\<open>configuration_filesystem\<close>):
  \<open>canonicalize_path\<close> and \<open>read_file\<close> of a file name in a directory answer from the
  disk at the time of the call. \<open>enter_directory\<close> returns nothing, it changes the
  filesystem object; the state of that object is kept as the list of the calls the
  detector made on it, in order (\<open>fs_calls\<close>).
\<close>

datatype fs_call =
    Canonicalize_path string
  | Enter_directory canonical_path
  | Read_file canonical_path string

record configuration_filesystem =
  fs_canonicalize_path :: "string \<Rightarrow> canonical_path_result"
  fs_read_file :: "canonical_path \<Rightarrow> string \<Rightarrow> read_file_result"

text \<open>\<open>watched_file\<close>; the C++ field \<open>config_file_path\<close> is \<open>watch_config_file_path\<close> here.\<close>

record watched_file =
  watched_file_path :: string
  watch_config_file_path :: "canonical_path option"

record configuration_change_detector_impl =
  watches :: "watched_file list"
  detector_config_files :: config_files
  fs_calls :: "fs_call list"

definition new_configuration_change_detector :: configuration_change_detector_impl where
  "new_configuration_change_detector =
     \<lparr>watches = [], detector_config_files = [], fs_calls = []\<rparr>"

text \<open>
  What \<open>get_config_file\<close> reads and writes: its local \<open>found_config\<close>, the out-parameter
  \<open>did_change\<close>, the watch it was given by reference, the map of loaded files and the
  calls made on the filesystem.
\<close>

record walk =
  found_config :: "nat option"
  did_change :: bool
  watch :: watched_file
  files :: config_files
  calls :: "fs_call list"

text \<open>
  The inner loop over the file names in one directory. \<open>None\<close> is \<open>QLJS_UNIMPLEMENTED\<close>
  (a read error other than not-found).
\<close>

fun look_in_directory ::
  "configuration_filesystem \<Rightarrow> canonical_path \<Rightarrow> string list \<Rightarrow> walk \<Rightarrow> walk option" where
  "look_in_directory fs parent_directory [] w = Some w"
| "look_in_directory fs parent_directory (file_name # file_names) w =
     (let w1 = w\<lparr>calls := calls w @ [Read_file parent_directory file_name]\<rparr> in
      case fs_read_file fs parent_directory file_name of
        Read_ok content \<Rightarrow>
          (let config_path = append_component parent_directory file_name in
           case emplace config_path (files w1) of
             (entry, inserted, ns) \<Rightarrow>
               if \<not> (watch_config_file_path (watch w1) = Some config_path \<and>
                       content = file_content (snd (ns ! entry)))
               then Some (w1\<lparr>found_config := Some entry, did_change := True,
                 watch := (watch w1)\<lparr>watch_config_file_path := Some config_path\<rparr>,
                 files := update_node entry (\<lambda>e. \<lparr>file_content = content,
                   config = load_from_json content
                     (if inserted then set_config_file_path config_path (reset (config e))
                      else reset (config e))\<rparr>) ns\<rparr>)
               else Some (w1\<lparr>found_config := Some entry, did_change := False, files := ns\<rparr>))
      | Read_failed err is_not_found_error \<Rightarrow>
          if is_not_found_error then look_in_directory fs parent_directory file_names w1
          else None)"

function get_config_file_loop ::
  "configuration_filesystem \<Rightarrow> canonical_path \<Rightarrow> walk \<Rightarrow> walk option" where
  "get_config_file_loop fs parent_directory w =
     (let w1 = w\<lparr>calls := calls w @ [Enter_directory parent_directory]\<rparr> in
      case (if found_config w1 = None
            then look_in_directory fs parent_directory config_file_names w1
            else Some w1) of
        None \<Rightarrow> None
      | Some w2 \<Rightarrow>
          (case parent parent_directory of
             None \<Rightarrow> Some w2
           | Some p \<Rightarrow> get_config_file_loop fs p w2))"
  by pat_completeness auto
termination
  by (relation "measure (\<lambda>(fs, d, w). length d)")
     (auto simp: parent_def split: if_splits)

declare get_config_file_loop.simps [simp del]

text \<open>
  \<open>get_config_file(watch, did_change)\<close>. \<open>did_change\<close> is not initialised by the callers
  and is written before every return; the walk starts with \<open>False\<close> in its place.
\<close>

definition get_config_file ::
  "configuration_filesystem \<Rightarrow> watched_file \<Rightarrow> config_files \<Rightarrow> fs_call list \<Rightarrow> walk option" where
  "get_config_file fs wfile ns cs =
     (case fs_canonicalize_path fs (watched_file_path wfile) of
        Canonicalize_failed err \<Rightarrow> None
      | Canonicalized existing missing \<Rightarrow>
          (case get_config_file_loop fs (start_directory existing missing)
                  \<lparr>found_config = None, did_change = False, watch = wfile, files = ns,
                   calls = cs @ [Canonicalize_path (watched_file_path wfile)]\<rparr> of
             None \<Rightarrow> None
           | Some w \<Rightarrow>
               (case found_config w of
                  Some entry \<Rightarrow> Some w
                | None \<Rightarrow>
                    Some (w\<lparr>did_change := (watch_config_file_path (watch w) \<noteq> None),
                            watch := (watch w)\<lparr>watch_config_file_path := None\<rparr>\<rparr>))))"

definition config_ptr_of :: "nat option \<Rightarrow> config_ptr" where
  "config_ptr_of found = (case found of Some entry \<Rightarrow> Loaded_config entry | None \<Rightarrow> Default_config)"

definition get_config_for_file ::
  "configuration_filesystem \<Rightarrow> string \<Rightarrow> configuration_change_detector_impl \<Rightarrow>
   (config_ptr \<times> configuration_change_detector_impl) option" where
  "get_config_for_file fs file_path d =
     (case get_config_file fs \<lparr>watched_file_path = file_path, watch_config_file_path = None\<rparr>
             (detector_config_files d) (fs_calls d) of
        None \<Rightarrow> None
      | Some w \<Rightarrow>
          Some (config_ptr_of (found_config w),
            \<lparr>watches = watches d @ [watch w], detector_config_files = files w,
             fs_calls = calls w\<rparr>))"

text \<open>
  The loop of the detector's \<open>refresh\<close>: the watches still to visit, and the detector
  whose \<open>watches\<close> are the ones visited so far.
\<close>

fun refresh_watches ::
  "configuration_filesystem \<Rightarrow> watched_file list \<Rightarrow> configuration_change list \<Rightarrow>
   configuration_change_detector_impl \<Rightarrow>
   (configuration_change list \<times> configuration_change_detector_impl) option" where
  "refresh_watches fs [] out_changes d = Some (out_changes, d)"
| "refresh_watches fs (wfile # wfiles) out_changes d =
     (case get_config_file fs wfile (detector_config_files d) (fs_calls d) of
        None \<Rightarrow> None
      | Some w \<Rightarrow>
          refresh_watches fs wfiles
            (if did_change w
             then out_changes @ [\<lparr>watched_path = watched_file_path (watch w),
                                  changed_config = config_ptr_of (found_config w)\<rparr>]
             else out_changes)
            \<lparr>watches = watches d @ [watch w], detector_config_files = files w,
             fs_calls = calls w\<rparr>)"

definition detector_refresh ::
  "configuration_filesystem \<Rightarrow> configuration_change list \<Rightarrow> configuration_change_detector_impl \<Rightarrow>
   (configuration_change list \<times> configuration_change_detector_impl) option" where
  "detector_refresh fs out_changes d =
     refresh_watches fs (watches d) out_changes (d\<lparr>watches := []\<rparr>)"

section \<open>The watch engines: watch_directory\<close>

text \<open>
  \<open>configuration_filesystem_inotify::watch_directory\<close>. The argument \<open>watch_descriptor\<close>
  is what \<open>inotify_add_watch\<close> returned for the directory.
\<close>

record configuration_filesystem_inotify =
  watch_descriptors :: "int list"

definition inotify_watch_directory ::
  "int \<Rightarrow> configuration_filesystem_inotify \<Rightarrow> configuration_filesystem_inotify option" where
  "inotify_watch_directory watch_descriptor s =
     (if watch_descriptor = - 1 then None
      else if watch_descriptor \<notin> set (watch_descriptors s)
      then Some (s\<lparr>watch_descriptors := watch_descriptors s @ [watch_descriptor]\<rparr>)
      else Some s)"

text \<open>
  \<open>configuration_filesystem_kqueue::watch_directory\<close>. The arguments are what \<open>open\<close>
  returned for the directory and what \<open>kevent\<close> returned for the registration.
\<close>

record configuration_filesystem_kqueue =
  watched_directories :: "int list"

definition kqueue_watch_directory ::
  "int \<Rightarrow> int \<Rightarrow> configuration_filesystem_kqueue \<Rightarrow> configuration_filesystem_kqueue option" where
  "kqueue_watch_directory directory_fd kqueue_rc s =
     (if directory_fd = - 1 then None
      else if kqueue_rc = - 1 then None
      else Some (s\<lparr>watched_directories := watched_directories s @ [directory_fd]\<rparr>))"

section \<open>Invariants, pointers and runs of host calls\<close>

text \<open>The keys of the store, by address.\<close>

definition keys :: "config_files \<Rightarrow> canonical_path list" where
  "keys ns = map fst ns"

text \<open>
  The invariant of one loaded config file: the configuration records the key of the
  entry as its path, and what it has loaded since its last reset is the stored content.
\<close>

definition entry_ok :: "canonical_path \<times> loaded_config_file \<Rightarrow> bool" where
  "entry_ok n =
     (config_file_path (config (snd n)) = Some (fst n) \<and>
      loaded_json (config (snd n)) = [file_content (snd n)])"

definition cache_inv :: "config_files \<Rightarrow> bool" where
  "cache_inv ns = list_all entry_ok ns"

text \<open>
  \<open>nodes_kept ns ms\<close>: every node of \<open>ns\<close> is a node of \<open>ms\<close> at the same address
  with the same key (no node was erased or moved).
\<close>

definition nodes_kept :: "config_files \<Rightarrow> config_files \<Rightarrow> bool" where
  "nodes_kept ns ms = (length ns \<le> length ms \<and> take (length ns) (keys ms) = keys ns)"

text \<open>A pointer addresses the default configuration or a node of the store.\<close>

definition ptr_ok :: "config_files \<Rightarrow> config_ptr \<Rightarrow> bool" where
  "ptr_ok ns c = (case c of Default_config \<Rightarrow> True | Loaded_config i \<Rightarrow> i < length ns)"

text \<open>The canonical path of the config file a pointer stands for.\<close>

definition ptr_path :: "config_files \<Rightarrow> config_ptr \<Rightarrow> canonical_path option" where
  "ptr_path ns c = (case c of Default_config \<Rightarrow> None | Loaded_config i \<Rightarrow> Some (fst (ns ! i)))"

text \<open>The configuration pointers a \<open>configuration_or_error\<close> gives to the host.\<close>

definition handed_out :: "configuration_or_error \<Rightarrow> config_ptr list" where
  "handed_out r = (case r of Config_ok c \<Rightarrow> [c] | Config_error err \<Rightarrow> [])"

text \<open>
  The invariant of the loader: keys are unique, every entry is \<open>entry_ok\<close>, and every
  path recorded for an input path is a key.
\<close>

definition loader_inv :: "configuration_loader \<Rightarrow> bool" where
  "loader_inv s =
     (distinct (keys (loaded_config_files s)) \<and> cache_inv (loaded_config_files s) \<and>
      ran (input_path_config_files s) \<subseteq> set (keys (loaded_config_files s)))"

definition loader_step ::
  "configuration_loader \<Rightarrow> config_ptr list \<Rightarrow> configuration_loader \<Rightarrow> bool" where
  "loader_step s ptrs s' =
     (loader_inv s' \<and> nodes_kept (loaded_config_files s) (loaded_config_files s') \<and>
      list_all (ptr_ok (loaded_config_files s')) ptrs)"

text \<open>The config path a watch records is a key of the store.\<close>

definition watch_ok :: "config_files \<Rightarrow> watched_file \<Rightarrow> bool" where
  "watch_ok ns wfile =
     (case watch_config_file_path wfile of None \<Rightarrow> True | Some p \<Rightarrow> p \<in> set (keys ns))"

definition detector_inv :: "configuration_change_detector_impl \<Rightarrow> bool" where
  "detector_inv d =
     (distinct (keys (detector_config_files d)) \<and> cache_inv (detector_config_files d) \<and>
      list_all (watch_ok (detector_config_files d)) (watches d))"

definition walk_inv :: "walk \<Rightarrow> bool" where
  "walk_inv w =
     (distinct (keys (files w)) \<and> cache_inv (files w) \<and> watch_ok (files w) (watch w) \<and>
      ptr_ok (files w) (config_ptr_of (found_config w)))"

definition detector_step ::
  "configuration_change_detector_impl \<Rightarrow> config_ptr list \<Rightarrow> configuration_change_detector_impl \<Rightarrow> bool" where
  "detector_step d ptrs d' =
     (detector_inv d' \<and> nodes_kept (detector_config_files d) (detector_config_files d') \<and>
      list_all (ptr_ok (detector_config_files d')) ptrs)"

text \<open>
  The canonical config path a call of the loader resolves to: the \<open>config_path\<close> of
  the branch the code takes (\<open>None\<close> when it resolves to no config file or to an
  error). \<open>refresh\<close> walks without looking at the loader (\<open>check_loaded\<close> is false),
  so what it resolves to depends on the disk alone.
\<close>

definition resolved_in_directory ::
  "loader_filesystem \<Rightarrow> canonical_path \<Rightarrow> configuration_loader \<Rightarrow> canonical_path option" where
  "resolved_in_directory fs parent_directory s =
     (let found = find_config_file_in_directory_and_ancestors fs s parent_directory True in
      if found_error found \<noteq> [] then None else found_path found)"

definition resolved_for_input ::
  "loader_filesystem \<Rightarrow> string \<Rightarrow> configuration_loader \<Rightarrow> canonical_path option" where
  "resolved_for_input fs input_path s =
     (case input_path_config_files s input_path of
        Some config_path \<Rightarrow> Some config_path
      | None \<Rightarrow>
          (case canonicalize_path fs input_path of
             Canonicalize_failed err \<Rightarrow> None
           | Canonicalized existing missing \<Rightarrow>
               resolved_in_directory fs (start_directory existing missing) s))"

definition resolved_for_current_directory ::
  "loader_filesystem \<Rightarrow> configuration_loader \<Rightarrow> canonical_path option" where
  "resolved_for_current_directory fs s =
     (case canonicalize_path fs ''.'' of
        Canonicalize_failed err \<Rightarrow> None
      | Canonicalized existing missing \<Rightarrow>
          resolved_in_directory fs (if missing \<noteq> [] then existing else existing @ missing) s)"

definition resolved_config_file :: "loader_filesystem \<Rightarrow> string \<Rightarrow> canonical_path option" where
  "resolved_config_file fs config_path =
     (case canonicalize_path fs config_path of
        Canonicalize_failed err \<Rightarrow> None
      | Canonicalized existing missing \<Rightarrow> Some (existing @ missing))"

definition resolved_for_file_to_lint ::
  "loader_filesystem \<Rightarrow> file_to_lint \<Rightarrow> configuration_loader \<Rightarrow> canonical_path option" where
  "resolved_for_file_to_lint fs f s =
     (case config_file f of
        Some cf \<Rightarrow> resolved_config_file fs (c_str cf)
      | None \<Rightarrow>
          (case path f of
             Some p \<Rightarrow> resolved_for_input fs (c_str p) s
           | None \<Rightarrow> resolved_for_current_directory fs s))"

definition refresh_resolved :: "loader_filesystem \<Rightarrow> string \<Rightarrow> canonical_path option" where
  "refresh_resolved fs input_path =
     (case canonicalize_path fs input_path of
        Canonicalize_failed err \<Rightarrow> None
      | Canonicalized existing missing \<Rightarrow>
          found_path (find_config_file_in_directory_and_ancestors fs new_configuration_loader
            (start_directory existing missing) False))"

text \<open>The bytes \<open>refresh\<close> reads for an input path: the content of the file it resolves to.\<close>

definition refresh_content :: "loader_filesystem \<Rightarrow> string \<Rightarrow> string" where
  "refresh_content fs input_path =
     (case canonicalize_path fs input_path of
        Canonicalize_failed err \<Rightarrow> []
      | Canonicalized existing missing \<Rightarrow>
          found_file_content (find_config_file_in_directory_and_ancestors fs new_configuration_loader
            (start_directory existing missing) False))"

text \<open>
  The canonical config path the detector resolves a file to on a disk: the path
  \<open>get_config_file\<close> records in a new watch of the file.
\<close>

definition detector_resolved :: "configuration_filesystem \<Rightarrow> string \<Rightarrow> canonical_path option" where
  "detector_resolved fs file_path =
     (case get_config_file fs \<lparr>watched_file_path = file_path, watch_config_file_path = None\<rparr> [] [] of
        None \<Rightarrow> None
      | Some w \<Rightarrow> watch_config_file_path (watch w))"

text \<open>
  A resolution is the canonical config path a call resolved to together with the
  configuration pointer the call returned for it. \<open>resolution_ok\<close>: the pointer addresses
  a configuration of the store, and the config file it stands for is the resolved one.
\<close>

type_synonym resolution = "canonical_path option \<times> config_ptr"

definition resolution_ok :: "config_files \<Rightarrow> resolution \<Rightarrow> bool" where
  "resolution_ok ns r = (ptr_ok ns (snd r) \<and> ptr_path ns (snd r) = fst r)"

text \<open>
  Host calls on the loader and on the detector, each with the filesystem as it is at
  the time of the call, and runs of such calls. A run collects the resolutions of its
  calls: for a load the pointer returned, for \<open>refresh\<close> the pointer of each change
  with what the changed source resolved to. \<open>None\<close> is an abort.
\<close>

datatype loader_call =
    Load_for_file loader_filesystem string
  | Load_for_file_to_lint loader_filesystem file_to_lint
  | Refresh loader_filesystem

fun loader_call_result ::
  "loader_call \<Rightarrow> configuration_loader \<Rightarrow> (resolution list \<times> configuration_loader) option" where
  "loader_call_result (Load_for_file fs p) s =
     map_option (\<lambda>(r, s'). (map (Pair (resolved_for_input fs (c_str p) s)) (handed_out r), s'))
       (load_for_file fs p s)"
| "loader_call_result (Load_for_file_to_lint fs f) s =
     map_option (\<lambda>(r, s'). (map (Pair (resolved_for_file_to_lint fs f s)) (handed_out r), s'))
       (load_for_file_to_lint fs f s)"
| "loader_call_result (Refresh fs) s =
     map_option
       (\<lambda>(changes, s'). (map (\<lambda>c. (refresh_resolved fs (watched_path c), changed_config c)) changes, s'))
       (refresh fs s)"

fun run_loader ::
  "loader_call list \<Rightarrow> resolution list \<Rightarrow> configuration_loader \<Rightarrow>
   (resolution list \<times> configuration_loader) option" where
  "run_loader [] rs s = Some (rs, s)"
| "run_loader (c # cs) rs s =
     (case loader_call_result c s of
        None \<Rightarrow> None
      | Some (new, s') \<Rightarrow> run_loader cs (rs @ new) s')"

datatype detector_call =
    Get_config_for_file configuration_filesystem string
  | Detector_refresh configuration_filesystem

fun detector_call_result ::
  "detector_call \<Rightarrow> configuration_change_detector_impl \<Rightarrow>
   (resolution list \<times> configuration_change_detector_impl) option" where
  "detector_call_result (Get_config_for_file fs p) d =
     map_option (\<lambda>(c, d'). ([(detector_resolved fs p, c)], d')) (get_config_for_file fs p d)"
| "detector_call_result (Detector_refresh fs) d =
     map_option
       (\<lambda>(changes, d'). (map (\<lambda>c. (detector_resolved fs (watched_path c), changed_config c)) changes, d'))
       (detector_refresh fs [] d)"

fun run_detector ::
  "detector_call list \<Rightarrow> resolution list \<Rightarrow> configuration_change_detector_impl \<Rightarrow>
   (resolution list \<times> configuration_change_detector_impl) option" where
  "run_detector [] rs d = Some (rs, d)"
| "run_detector (c # cs) rs d =
     (case detector_call_result c d of
        None \<Rightarrow> None
      | Some (new, d') \<Rightarrow> run_detector cs (rs @ new) d')"

text \<open>
  What a call, or a run of calls, leaves: the invariant holds, no node was erased or
  moved, and every resolution collected is \<open>resolution_ok\<close> in the store.
\<close>

definition loader_res_step ::
  "configuration_loader \<Rightarrow> resolution list \<Rightarrow> configuration_loader \<Rightarrow> bool" where
  "loader_res_step s rs s' =
     (loader_inv s' \<and> nodes_kept (loaded_config_files s) (loaded_config_files s') \<and>
      list_all (resolution_ok (loaded_config_files s')) rs)"

definition detector_res_step ::
  "configuration_change_detector_impl \<Rightarrow> resolution list \<Rightarrow> configuration_change_detector_impl \<Rightarrow> bool" where
  "detector_res_step d rs d' =
     (detector_inv d' \<and> nodes_kept (detector_config_files d) (detector_config_files d') \<and>
      list_all (resolution_ok (detector_config_files d')) rs)"

text \<open>
  \<open>get_config_file\<close> resolved to the path \<open>p\<close>: the entry it returns has the key \<open>p\<close>,
  and the watch records \<open>p\<close>.
\<close>

definition found_at :: "walk \<Rightarrow> canonical_path \<Rightarrow> bool" where
  "found_at w p =
     ((case found_config w of None \<Rightarrow> False
       | Some e \<Rightarrow> e < length (files w) \<and> fst (files w ! e) = p) \<and>
      watch_config_file_path (watch w) = Some p)"

section \<open>Example scenarios\<close>

text \<open>
  Example disks for the scenarios of the tests: a project directory \<open>/t\<close> with the
  sources \<open>/t/a.js\<close>, \<open>/t/b.js\<close> and \<open>/t/dir/hello.js\<close>.
\<close>

definition example_canonicalize :: "string \<Rightarrow> canonical_path_result" where
  "example_canonicalize p =
     (if p = ''/t/a.js'' then Canonicalized [''t'', ''a.js''] []
      else if p = ''/t/b.js'' then Canonicalized [''t'', ''b.js''] []
      else if p = ''/t/dir/hello.js'' then Canonicalized [''t'', ''dir'', ''hello.js''] []
      else Canonicalize_failed ''cannot canonicalize'')"

definition unreachable_canonicalize :: "string \<Rightarrow> canonical_path_result" where
  "unreachable_canonicalize p = Canonicalize_failed ''cannot canonicalize''"

definition disk_without_config :: "canonical_path \<Rightarrow> read_file_result" where
  "disk_without_config p = Read_failed ''no such file'' True"

definition disk_with_config :: "string \<Rightarrow> canonical_path \<Rightarrow> read_file_result" where
  "disk_with_config content p =
     (if p = [''t'', ''quick-lint-js.config''] then Read_ok content
      else Read_failed ''no such file'' True)"

definition disk_with_both :: "canonical_path \<Rightarrow> read_file_result" where
  "disk_with_both p =
     (if p = [''t'', ''quick-lint-js.config''] then Read_ok ''{}''
      else if p = [''t'', ''.quick-lint-js.config''] then Read_ok ''{globals: {}}''
      else if p = [''quick-lint-js.config''] then Read_ok ''{outer: true}''
      else Read_failed ''no such file'' True)"



definition disk_with_nested :: "string \<Rightarrow> canonical_path \<Rightarrow> read_file_result" where
  "disk_with_nested content p =
     (if p = [''t'', ''quick-lint-js.config''] then Read_ok content
      else if p = [''t'', ''dir'', ''quick-lint-js.config''] then Read_ok ''{nested: true}''
      else Read_failed ''no such file'' True)"

definition loader_fs :: "(canonical_path \<Rightarrow> read_file_result) \<Rightarrow> loader_filesystem" where
  "loader_fs disk = \<lparr>canonicalize_path = example_canonicalize, read_file = disk\<rparr>"

definition detector_fs :: "(canonical_path \<Rightarrow> read_file_result) \<Rightarrow> configuration_filesystem" where
  "detector_fs disk =
     \<lparr>fs_canonicalize_path = example_canonicalize,
      fs_read_file = (\<lambda>directory file_name. disk (append_component directory file_name))\<rparr>"

definition example_loader_calls :: "loader_call list" where
  "example_loader_calls =
     [Load_for_file (loader_fs (disk_with_config ''{}'')) ''/t/a.js'',
      Load_for_file_to_lint (loader_fs (disk_with_config ''{}''))
        \<lparr>path = Some ''/t/b.js'', config_file = None\<rparr>,
      Refresh (loader_fs (disk_with_config ''{globals: {}}''))]"

definition example_detector_calls :: "detector_call list" where
  "example_detector_calls =
     [Get_config_for_file (detector_fs (disk_with_config ''{}'')) ''/t/a.js'',
      Get_config_for_file (detector_fs (disk_with_config ''{}'')) ''/t/b.js'',
      Detector_refresh (detector_fs (disk_with_config ''{globals: {}}''))]"

text \<open>
  A project with a config in \<open>/t\<close> and one in \<open>/t/dir\<close>: two sources are loaded, then
  a third one, and the config of \<open>/t\<close> is rewritten before a refresh.
\<close>

definition nested_loader_calls :: "loader_call list" where
  "nested_loader_calls =
     [Load_for_file (loader_fs (disk_with_nested ''{}'')) ''/t/a.js'',
      Load_for_file (loader_fs (disk_with_nested ''{}'')) ''/t/dir/hello.js'']"

definition nested_loader_calls_later :: "loader_call list" where
  "nested_loader_calls_later =
     [Load_for_file_to_lint (loader_fs (disk_with_nested ''{}''))
        \<lparr>path = Some ''/t/b.js'', config_file = None\<rparr>,
      Refresh (loader_fs (disk_with_nested ''{globals: {}}''))]"

definition nested_detector_calls :: "detector_call list" where
  "nested_detector_calls =
     [Get_config_for_file (detector_fs (disk_with_nested ''{}'')) ''/t/a.js'',
      Get_config_for_file (detector_fs (disk_with_nested ''{}'')) ''/t/dir/hello.js'']"

definition nested_detector_calls_later :: "detector_call list" where
  "nested_detector_calls_later =
     [Get_config_for_file (detector_fs (disk_with_nested ''{}'')) ''/t/b.js'',
      Detector_refresh (detector_fs (disk_with_nested ''{globals: {}}''))]"


text \<open>
  The watch engines' \<open>enter_directory\<close> (each calls its \<open>watch_directory\<close>), and
  states of the loader and the detector reached in the example scenarios.
\<close>

definition unreachable_loader_fs :: loader_filesystem where
  "unreachable_loader_fs =
     \<lparr>canonicalize_path = unreachable_canonicalize, read_file = disk_without_config\<rparr>"

definition unreachable_detector_fs :: configuration_filesystem where
  "unreachable_detector_fs =
     \<lparr>fs_canonicalize_path = unreachable_canonicalize,
      fs_read_file = (\<lambda>directory file_name. disk_without_config (append_component directory file_name))\<rparr>"

definition a_registered :: configuration_loader where
  "a_registered =
     \<lparr>watched_paths = [''/t/a.js''], loaded_config_files = [],
      input_path_config_files = Map.empty\<rparr>"

definition a_watched :: configuration_change_detector_impl where
  "a_watched =
     \<lparr>watches = [\<lparr>watched_file_path = ''/t/a.js'', watch_config_file_path = None\<rparr>],
      detector_config_files = [],
      fs_calls = [Canonicalize_path ''/t/a.js'', Enter_directory [''t''],
                  Read_file [''t''] ''quick-lint-js.config'', Read_file [''t''] ''.quick-lint-js.config'',
                  Enter_directory [],
                  Read_file [] ''quick-lint-js.config'', Read_file [] ''.quick-lint-js.config'']\<rparr>"

definition config_loaded_unwatched :: configuration_loader where
  "config_loaded_unwatched =
     \<lparr>watched_paths = [],
      loaded_config_files =
        [([''t'', ''quick-lint-js.config''],
          \<lparr>file_content = ''{}'',
           config = \<lparr>config_file_path = Some [''t'', ''quick-lint-js.config''],
                     loaded_json = [''{}'']\<rparr>\<rparr>)],
      input_path_config_files = [''/t/b.js'' \<mapsto> [''t'', ''quick-lint-js.config'']]\<rparr>"

definition two_sources_registered :: configuration_loader where
  "two_sources_registered =
     \<lparr>watched_paths = [''/t/a.js'', ''/t/b.js''], loaded_config_files = [],
      input_path_config_files = Map.empty\<rparr>"

definition a_config_loaded :: configuration_loader where
  "a_config_loaded =
     \<lparr>watched_paths = [''/t/a.js''],
      loaded_config_files =
        [([''t'', ''quick-lint-js.config''],
          \<lparr>file_content = ''{}'',
           config = \<lparr>config_file_path = Some [''t'', ''quick-lint-js.config''],
                     loaded_json = [''{}'']\<rparr>\<rparr>)],
      input_path_config_files = [''/t/a.js'' \<mapsto> [''t'', ''quick-lint-js.config'']]\<rparr>"

definition inotify_enter_directory ::
  "int \<Rightarrow> configuration_filesystem_inotify \<Rightarrow> configuration_filesystem_inotify option" where
  "inotify_enter_directory watch_descriptor s = inotify_watch_directory watch_descriptor s"

definition kqueue_enter_directory ::
  "int \<Rightarrow> int \<Rightarrow> configuration_filesystem_kqueue \<Rightarrow> configuration_filesystem_kqueue option" where
  "kqueue_enter_directory directory_fd kqueue_rc s = kqueue_watch_directory directory_fd kqueue_rc s"

section \<open>The store of loaded config files and the loader\<close>

lemma find_node_keys: "map fst ns = map fst ms \<Longrightarrow> find_node k ns = find_node k ms"
proof (induction ns arbitrary: ms)
  case Nil
  then show ?case by simp
next
  case (Cons n ns)
  from Cons.prems obtain m ms' where ms: "ms = m # ms'" by (cases ms) simp_all
  with Cons.prems have "fst n = fst m" "map fst ns = map fst ms'" by simp_all
  with Cons.IH [of ms'] ms show ?case by simp
qed

lemma find_node_Some: "find_node k ns = Some i \<Longrightarrow> i < length ns \<and> fst (ns ! i) = k"
  by (induction ns arbitrary: i) (auto split: if_splits)

lemma find_node_None: "find_node k ns = None \<longleftrightarrow> k \<notin> set (keys ns)"
  by (induction ns) (auto simp: keys_def)

lemma find_node_distinct:
  "distinct (keys ns) \<Longrightarrow> i < length ns \<Longrightarrow> find_node (fst (ns ! i)) ns = Some i"
proof (induction ns arbitrary: i)
  case Nil
  then show ?case by simp
next
  case (Cons n ns)
  show ?case
  proof (cases i)
    case 0
    then show ?thesis by simp
  next
    case (Suc j)
    with Cons.prems have j: "j < length ns" by simp
    then have "ns ! j \<in> set ns" by simp
    then have "fst (ns ! j) \<in> fst ` set ns" by (rule imageI)
    moreover from Cons.prems have "fst n \<notin> fst ` set ns" by (simp add: keys_def)
    ultimately have "fst (ns ! j) \<noteq> fst n" by metis
    note j this
    with Cons Suc show ?thesis by (simp add: keys_def)
  qed
qed

lemma map_fst_update_node: "map fst (update_node i f ns) = map fst ns"
proof (cases "i < length ns")
  case True
  then have "(map fst ns)[i := fst (ns ! i)] = (map fst ns)[i := map fst ns ! i]"
    by simp
  also have "\<dots> = map fst ns" by (rule list_update_id)
  finally have "(map fst ns)[i := fst (ns ! i)] = map fst ns" .
  then show ?thesis by (simp add: update_node_def map_update)
next
  case False
  then have "ns[i := (fst (ns ! i), f (snd (ns ! i)))] = ns" by (simp add: list_update_beyond)
  then show ?thesis by (simp add: update_node_def)
qed

lemma keys_update_node [simp]: "keys (update_node i f ns) = keys ns"
  by (simp add: keys_def map_fst_update_node)

lemma length_update_node [simp]: "length (update_node i f ns) = length ns"
  by (simp add: update_node_def)

lemma nth_update_node:
  "i < length ns \<Longrightarrow> update_node i f ns ! j = (if j = i then (fst (ns ! i), f (snd (ns ! i))) else ns ! j)"
  by (simp add: update_node_def)

lemma find_node_update_node [simp]: "find_node k (update_node i f ns) = find_node k ns"
  by (rule find_node_keys) (rule map_fst_update_node)

lemma cache_inv_update_node:
  assumes "cache_inv ns" "i < length ns" "entry_ok (fst (ns ! i), f (snd (ns ! i)))"
  shows "cache_inv (update_node i f ns)"
  using assms by (auto simp: cache_inv_def list_all_length nth_update_node)

lemma emplace_cases:
  assumes "emplace k ns = (i, inserted, ms)"
  shows "(inserted \<and> find_node k ns = None \<and> i = length ns \<and> ms = ns @ [(k, new_loaded_config_file)]) \<or>
         (\<not> inserted \<and> find_node k ns = Some i \<and> ms = ns)"
  using assms by (auto simp: emplace_def split: option.splits)

lemma emplace_entry:
  assumes "emplace k ns = (i, inserted, ms)"
  shows "i < length ms" "fst (ms ! i) = k"
  using emplace_cases [OF assms] by (auto simp: nth_append dest: find_node_Some)

lemma emplace_keys:
  assumes "emplace k ns = (i, inserted, ms)"
  shows "keys ms = keys ns @ (if inserted then [k] else [])"
  using emplace_cases [OF assms] by (auto simp: keys_def)

lemma emplace_distinct:
  assumes "emplace k ns = (i, inserted, ms)" "distinct (keys ns)"
  shows "distinct (keys ms)"
  using emplace_cases [OF assms(1)] assms(2) by (auto simp: keys_def find_node_None)

lemma emplace_old_nodes:
  assumes "emplace k ns = (i, inserted, ms)" "j < length ns"
  shows "ms ! j = ns ! j"
  using emplace_cases [OF assms(1)] assms(2) by (auto simp: nth_append)

lemma nodes_kept_refl [simp]: "nodes_kept ns ns"
  by (simp add: nodes_kept_def keys_def)

lemma nodes_kept_trans: "nodes_kept ns ms \<Longrightarrow> nodes_kept ms ks \<Longrightarrow> nodes_kept ns ks"
proof -
  assume a: "nodes_kept ns ms" and b: "nodes_kept ms ks"
  from a b have le: "length ns \<le> length ms" "length ms \<le> length ks"
    by (simp_all add: nodes_kept_def)
  have "take (length ns) (keys ks) = take (length ns) (take (length ms) (keys ks))"
    using le by (simp add: min_def)
  also have "\<dots> = take (length ns) (keys ms)" using b by (simp add: nodes_kept_def)
  also have "\<dots> = keys ns" using a by (simp add: nodes_kept_def)
  finally show ?thesis using le by (simp add: nodes_kept_def)
qed

lemma nodes_kept_update_node [simp]: "nodes_kept ns (update_node i f ns)"
  by (simp add: nodes_kept_def) (simp add: keys_def)

lemma nodes_kept_update_node2: "nodes_kept ns ms \<Longrightarrow> nodes_kept ns (update_node i f ms)"
  by (simp add: nodes_kept_def)

lemma nodes_kept_emplace: "emplace k ns = (i, inserted, ms) \<Longrightarrow> nodes_kept ns ms"
  by (drule emplace_cases) (auto simp: nodes_kept_def keys_def)

lemma nodes_kept_keys: "nodes_kept ns ms \<Longrightarrow> set (keys ns) \<subseteq> set (keys ms)"
proof -
  assume a: "nodes_kept ns ms"
  then have "set (keys ns) = set (take (length ns) (keys ms))" by (simp add: nodes_kept_def)
  also have "\<dots> \<subseteq> set (keys ms)" by (rule set_take_subset)
  finally show ?thesis .
qed

lemma nodes_kept_ptr_ok: "nodes_kept ns ms \<Longrightarrow> ptr_ok ns c \<Longrightarrow> ptr_ok ms c"
  by (auto simp: nodes_kept_def ptr_ok_def split: config_ptr.splits)

lemma nodes_kept_nth:
  assumes "nodes_kept ns ms" "i < length ns"
  shows "fst (ms ! i) = fst (ns ! i)"
proof -
  from assms have le: "length ns \<le> length ms" and eq: "take (length ns) (map fst ms) = map fst ns"
    by (simp_all add: nodes_kept_def keys_def)
  from assms(2) have "take (length ns) (map fst ms) ! i = map fst ms ! i" by simp
  with eq have "map fst ms ! i = map fst ns ! i" by simp
  with assms(2) le show ?thesis by simp
qed

lemma cache_inv_emplace_update:
  assumes "emplace k ns = (i, inserted, ms)" "cache_inv ns"
    and "inserted \<Longrightarrow> entry_ok (k, f new_loaded_config_file)"
    and "\<not> inserted \<Longrightarrow> entry_ok (k, f (snd (ns ! i)))"
  shows "cache_inv (update_node i f ms)"
proof (cases inserted)
  case True
  with emplace_cases [OF assms(1)]
  have "i = length ns" "ms = ns @ [(k, new_loaded_config_file)]" by auto
  then have "update_node i f ms = ns @ [(k, f new_loaded_config_file)]"
    by (simp add: update_node_def)
  with assms(2) assms(3) [OF True] show ?thesis by (simp add: cache_inv_def)
next
  case False
  with emplace_cases [OF assms(1)] have *: "find_node k ns = Some i" "ms = ns" by auto
  then have "i < length ns" "fst (ns ! i) = k" by (auto dest: find_node_Some)
  with assms(2) assms(4) [OF False] * show ?thesis
    by (simp add: cache_inv_update_node)
qed

lemma entry_ok_load [simp]:
  "entry_ok (k, \<lparr>file_content = content,
      config = load_from_json content (set_config_file_path k (reset c))\<rparr>)"
  by (simp add: entry_ok_def load_from_json_def set_config_file_path_def reset_def)

lemma entry_ok_load_new [simp]:
  "entry_ok (k, \<lparr>file_content = content,
      config = load_from_json content (set_config_file_path k (config new_loaded_config_file))\<rparr>)"
  by (simp add: entry_ok_def load_from_json_def set_config_file_path_def
      new_loaded_config_file_def default_configuration_def)

lemma find_config_file_in_directory_loaded:
  assumes "find_config_file_in_directory fs s d cl names = Some found"
    and "already_loaded found = Some e"
  shows "\<exists>p. found_path found = Some p \<and> find_node p (loaded_config_files s) = Some e"
  using assms
  by (induction names)
     (auto simp: Let_def get_loaded_config_def split: if_splits option.splits read_file_result.splits)

lemma find_config_file_in_directory_unloaded:
  assumes "find_config_file_in_directory fs s d True names = Some found"
    and "already_loaded found = None" "found_path found = Some p"
  shows "find_node p (loaded_config_files s) = None"
  using assms
  by (induction names)
     (auto simp: Let_def get_loaded_config_def split: if_splits option.splits read_file_result.splits)

lemma walk_found:
  "find_config_file_in_directory fs s d cl config_file_names = Some found \<Longrightarrow>
   find_config_file_in_directory_and_ancestors fs s d cl = found"
  by (subst find_config_file_in_directory_and_ancestors.simps) simp

lemma walk_root:
  "find_config_file_in_directory fs s d cl config_file_names = None \<Longrightarrow> parent d = None \<Longrightarrow>
   find_config_file_in_directory_and_ancestors fs s d cl =
     \<lparr>found_path = None, already_loaded = None, found_file_content = [], found_error = []\<rparr>"
  by (subst find_config_file_in_directory_and_ancestors.simps) simp

lemma walk_up:
  "find_config_file_in_directory fs s d cl config_file_names = None \<Longrightarrow> parent d = Some p \<Longrightarrow>
   find_config_file_in_directory_and_ancestors fs s d cl =
     find_config_file_in_directory_and_ancestors fs s p cl"
  by (subst find_config_file_in_directory_and_ancestors.simps) simp

lemma find_config_file_loaded:
  assumes "already_loaded (find_config_file_in_directory_and_ancestors fs s d cl) = Some e"
  shows "\<exists>p. found_path (find_config_file_in_directory_and_ancestors fs s d cl) = Some p \<and>
             find_node p (loaded_config_files s) = Some e"
  using assms
proof (induction fs s d cl rule: find_config_file_in_directory_and_ancestors.induct)
  case (1 fs s d cl)
  show ?case
  proof (cases "find_config_file_in_directory fs s d cl config_file_names")
    case (Some found)
    with "1.prems" find_config_file_in_directory_loaded [OF Some] show ?thesis
      by (simp add: walk_found)
  next
    case None
    show ?thesis
    proof (cases "parent d")
      case pNone: None
      with None "1.prems" show ?thesis by (simp add: walk_root)
    next
      case (Some p)
      with None "1.prems" "1.IH" [OF None Some] show ?thesis by (simp add: walk_up)
    qed
  qed
qed

lemma find_config_file_unloaded:
  assumes "already_loaded (find_config_file_in_directory_and_ancestors fs s d True) = None"
    and "found_path (find_config_file_in_directory_and_ancestors fs s d True) = Some p"
  shows "find_node p (loaded_config_files s) = None"
  using assms
proof (induction fs s d "True" rule: find_config_file_in_directory_and_ancestors.induct)
  case (1 fs s d)
  show ?case
  proof (cases "find_config_file_in_directory fs s d True config_file_names")
    case (Some found)
    with "1.prems" find_config_file_in_directory_unloaded [OF Some] show ?thesis
      by (simp add: walk_found)
  next
    case None
    show ?thesis
    proof (cases "parent d")
      case pNone: None
      with None "1.prems" show ?thesis by (simp add: walk_root)
    next
      case (Some p)
      with None "1.prems" "1.hyps" [OF None Some] show ?thesis by (simp add: walk_up)
    qed
  qed
qed

lemma loader_inv_watched_paths [simp]:
  "loader_inv (s\<lparr>watched_paths := ws\<rparr>) = loader_inv s"
  by (simp add: loader_inv_def)

lemma load_new_node:
  assumes inv: "loader_inv s"
    and em: "emplace p (loaded_config_files s) = (e, True, ns)"
    and ran: "ran m \<subseteq> insert p (set (keys (loaded_config_files s)))"
  shows "loader_inv (s\<lparr>input_path_config_files := m,
            loaded_config_files := load_into_node e content p ns\<rparr>)"
    and "nodes_kept (loaded_config_files s) (load_into_node e content p ns)"
    and "e < length (load_into_node e content p ns)"
proof -
  from inv have d: "distinct (keys (loaded_config_files s))" and c: "cache_inv (loaded_config_files s)"
    by (simp_all add: loader_inv_def)
  have k: "keys ns = keys (loaded_config_files s) @ [p]"
    using emplace_keys [OF em] by simp
  have "cache_inv (load_into_node e content p ns)"
    unfolding load_into_node_def
    by (rule cache_inv_emplace_update [OF em c]) simp_all
  moreover have "distinct (keys (load_into_node e content p ns))"
    using emplace_distinct [OF em d] by (simp add: load_into_node_def)
  moreover have "ran m \<subseteq> set (keys (load_into_node e content p ns))"
    using ran k by (auto simp: load_into_node_def)
  ultimately show "loader_inv (s\<lparr>input_path_config_files := m,
            loaded_config_files := load_into_node e content p ns\<rparr>)"
    by (simp add: loader_inv_def)
  show "nodes_kept (loaded_config_files s) (load_into_node e content p ns)"
    unfolding load_into_node_def
    by (rule nodes_kept_update_node2) (rule nodes_kept_emplace [OF em])
  show "e < length (load_into_node e content p ns)"
    using emplace_entry(1) [OF em] by (simp add: load_into_node_def)
qed

lemma loader_step_same: "loader_inv s \<Longrightarrow> loader_step s [] s"
  by (simp add: loader_step_def)

lemma load_config_file_step:
  assumes "loader_inv s" "load_config_file fs cp s = Some (r, s')"
  shows "loader_step s (handed_out r) s'"
proof (cases "canonicalize_path fs cp")
  case (Canonicalize_failed err)
  with assms show ?thesis
    by (auto simp: load_config_file_def loader_step_def handed_out_def)
next
  case (Canonicalized existing missing)
  let ?c = "existing @ missing"
  show ?thesis
  proof (cases "get_loaded_config s ?c")
    case (Some e)
    then have "e < length (loaded_config_files s)"
      by (auto simp: get_loaded_config_def dest: find_node_Some)
    with assms Canonicalized Some show ?thesis
      by (auto simp: load_config_file_def loader_step_def handed_out_def ptr_ok_def)
  next
    case None
    show ?thesis
    proof (cases "read_file fs ?c")
      case (Read_failed err nf)
      with assms Canonicalized None show ?thesis
        by (auto simp: load_config_file_def loader_step_def handed_out_def)
    next
      case (Read_ok content)
      obtain e ins ns where em: "emplace ?c (loaded_config_files s) = (e, ins, ns)"
        by (cases "emplace ?c (loaded_config_files s)") auto
      with assms Canonicalized None Read_ok have ins: "ins"
        and r: "r = Config_ok (Loaded_config e)"
        and s': "s' = s\<lparr>loaded_config_files := load_into_node e content ?c ns\<rparr>"
        by (auto simp: load_config_file_def split: if_splits)
      from assms(1) have ran: "ran (input_path_config_files s) \<subseteq>
          insert ?c (set (keys (loaded_config_files s)))"
        by (auto simp: loader_inv_def)
      from em ins have em': "emplace ?c (loaded_config_files s) = (e, True, ns)" by simp
      from load_new_node [OF assms(1) em' ran, of content] r s' show ?thesis
        by (simp add: loader_step_def handed_out_def ptr_ok_def)
    qed
  qed
qed

lemma find_and_load_in_directory_step:
  assumes inv: "loader_inv s"
    and res: "find_and_load_config_file_in_directory_and_ancestors fs d ip s = Some (r, s')"
  shows "loader_step s (handed_out r) s' \<and> watched_paths s' = watched_paths s"
proof -
  let ?found = "find_config_file_in_directory_and_ancestors fs s d True"
  show ?thesis
  proof (cases "found_error ?found \<noteq> []")
    case True
    with res inv show ?thesis
      by (auto simp: find_and_load_config_file_in_directory_and_ancestors_def Let_def
          loader_step_def handed_out_def)
  next
    case noerr: False
    show ?thesis
    proof (cases "found_path ?found")
      case None
      with res inv noerr show ?thesis
        by (auto simp: find_and_load_config_file_in_directory_and_ancestors_def Let_def
            loader_step_def handed_out_def ptr_ok_def)
    next
      case (Some p)
      define m where "m = (case ip of None \<Rightarrow> input_path_config_files s
                           | Some i \<Rightarrow> (input_path_config_files s)(i \<mapsto> p))"
      have ran: "ran m \<subseteq> insert p (set (keys (loaded_config_files s)))"
      proof (cases ip)
        case None
        with inv show ?thesis by (auto simp: m_def loader_inv_def)
      next
        case (Some i)
        have "ran ((input_path_config_files s)(i \<mapsto> p)) \<subseteq> insert p (ran (input_path_config_files s))"
          by (auto simp: ran_def split: if_splits)
        with inv Some show ?thesis by (auto simp: m_def loader_inv_def)
      qed
      show ?thesis
      proof (cases "already_loaded ?found")
        case (Some e)
        from find_config_file_loaded [OF Some] \<open>found_path ?found = Some p\<close>
        have f: "find_node p (loaded_config_files s) = Some e" by simp
        then have e: "e < length (loaded_config_files s)" "p \<in> set (keys (loaded_config_files s))"
          using find_node_None [of p "loaded_config_files s"] by (auto dest: find_node_Some)
        from res noerr \<open>found_path ?found = Some p\<close> Some
        have r: "r = Config_ok (Loaded_config e)" and s': "s' = s\<lparr>input_path_config_files := m\<rparr>"
          by (auto simp: find_and_load_config_file_in_directory_and_ancestors_def Let_def m_def
              split: option.splits)
        from inv ran e(2) have "loader_inv (s\<lparr>input_path_config_files := m\<rparr>)"
          by (auto simp: loader_inv_def)
        with r s' e show ?thesis
          by (simp add: loader_step_def handed_out_def ptr_ok_def)
      next
        case None
        obtain e ins ns where em: "emplace p (loaded_config_files s) = (e, ins, ns)"
          by (cases "emplace p (loaded_config_files s)") auto
        from res noerr \<open>found_path ?found = Some p\<close> None em
        have ins: ins and r: "r = Config_ok (Loaded_config e)"
          and s': "s' = s\<lparr>input_path_config_files := m,
                 loaded_config_files := load_into_node e (found_file_content ?found) p ns\<rparr>"
          by (auto simp: find_and_load_config_file_in_directory_and_ancestors_def Let_def m_def
              split: option.splits if_splits)
        from em ins have em': "emplace p (loaded_config_files s) = (e, True, ns)" by simp
        from load_new_node [OF inv em' ran, of "found_file_content ?found"] r s' show ?thesis
          by (simp add: loader_step_def handed_out_def ptr_ok_def)
      qed
    qed
  qed
qed

lemma find_and_load_for_input_step:
  assumes inv: "loader_inv s"
    and res: "find_and_load_config_file_for_input fs ip s = Some (r, s')"
  shows "loader_step s (handed_out r) s' \<and> watched_paths s' = watched_paths s"
proof (cases "input_path_config_files s ip")
  case (Some p)
  with res obtain e where "find_node p (loaded_config_files s) = Some e"
    "r = Config_ok (Loaded_config e)" "s' = s"
    by (auto simp: find_and_load_config_file_for_input_def split: option.splits)
  with inv show ?thesis
    by (auto simp: loader_step_def handed_out_def ptr_ok_def dest: find_node_Some)
next
  case None
  show ?thesis
  proof (cases "canonicalize_path fs ip")
    case (Canonicalize_failed err)
    with None res inv show ?thesis
      by (auto simp: find_and_load_config_file_for_input_def loader_step_def handed_out_def)
  next
    case (Canonicalized existing missing)
    with None res find_and_load_in_directory_step [OF inv] show ?thesis
      by (simp add: find_and_load_config_file_for_input_def)
  qed
qed

lemma find_and_load_for_cwd_step:
  assumes inv: "loader_inv s"
    and res: "find_and_load_config_file_for_current_directory fs s = Some (r, s')"
  shows "loader_step s (handed_out r) s' \<and> watched_paths s' = watched_paths s"
proof (cases "canonicalize_path fs ''.''")
  case (Canonicalize_failed err)
  with res inv show ?thesis
    by (auto simp: find_and_load_config_file_for_current_directory_def loader_step_def handed_out_def)
next
  case (Canonicalized existing missing)
  with res find_and_load_in_directory_step [OF inv] show ?thesis
    by (simp add: find_and_load_config_file_for_current_directory_def)
qed

lemma load_for_file_step:
  assumes inv: "loader_inv s" and res: "load_for_file fs p s = Some (r, s')"
  shows "loader_step s (handed_out r) s'"
proof -
  from inv have "loader_inv (s\<lparr>watched_paths := watched_paths s @ [p]\<rparr>)" by simp
  from find_and_load_for_input_step [OF this] res
  show ?thesis by (simp add: load_for_file_def loader_step_def)
qed

lemma load_for_file_to_lint_step:
  assumes inv: "loader_inv s" and res: "load_for_file_to_lint fs file s = Some (r, s')"
  shows "loader_step s (handed_out r) s'"
  using res load_config_file_step [OF inv] find_and_load_for_input_step [OF inv]
    find_and_load_for_cwd_step [OF inv]
  by (auto simp: load_for_file_to_lint_def split: option.splits)

lemma loader_step_trans:
  assumes "loader_step s p1 s1" "loader_step s1 p2 s2"
  shows "loader_step s (p1 @ p2) s2"
proof -
  from assms have k: "nodes_kept (loaded_config_files s) (loaded_config_files s2)"
    by (auto simp: loader_step_def intro: nodes_kept_trans)
  from assms have "list_all (ptr_ok (loaded_config_files s2)) p1"
    by (auto simp: loader_step_def list_all_iff intro: nodes_kept_ptr_ok)
  with assms k show ?thesis by (simp add: loader_step_def)
qed

lemma refresh_path_step:
  assumes inv: "loader_inv s" and res: "refresh_path fs ip s = Some (ch, s')"
  shows "loader_step s (map changed_config ch) s' \<and> watched_paths s' = watched_paths s \<and>
         input_path_config_files s' = input_path_config_files s \<and>
         list_all (\<lambda>c. watched_path c = ip) ch"
proof (cases "canonicalize_path fs ip")
  case (Canonicalize_failed err)
  with res show ?thesis by (simp add: refresh_path_def)
next
  case (Canonicalized existing missing)
  let ?latest = "find_config_file_in_directory_and_ancestors fs s (start_directory existing missing) False"
  let ?content = "found_file_content ?latest"
  from inv have d: "distinct (keys (loaded_config_files s))" and c: "cache_inv (loaded_config_files s)"
    and ran: "ran (input_path_config_files s) \<subseteq> set (keys (loaded_config_files s))"
    by (simp_all add: loader_inv_def)
  show ?thesis
  proof (cases "found_path ?latest")
    case None
    with res Canonicalized inv show ?thesis
      by (auto simp: refresh_path_def Let_def loader_step_def ptr_ok_def split: option.splits)
  next
    case (Some p)
    let ?f = "\<lambda>e. \<lparr>file_content = ?content,
               config = load_from_json ?content (set_config_file_path p (reset (config e)))\<rparr>"
    show ?thesis
    proof (cases "get_loaded_config s p")
      case loaded: (Some e)
      then have e: "e < length (loaded_config_files s)" "fst (loaded_config_files s ! e) = p"
        by (auto simp: get_loaded_config_def dest: find_node_Some)
      show ?thesis
      proof (cases "?content \<noteq> file_content (snd (loaded_config_files s ! e))")
        case True
        with res Canonicalized Some loaded
        have ch: "ch = [\<lparr>watched_path = ip, changed_config = Loaded_config e\<rparr>]"
          and s': "s' = s\<lparr>loaded_config_files := update_node e ?f (loaded_config_files s)\<rparr>"
          by (auto simp: refresh_path_def Let_def)
        have "cache_inv (update_node e ?f (loaded_config_files s))"
          using c e by (intro cache_inv_update_node) simp_all
        with d ran ch s' e show ?thesis
          by (simp add: loader_step_def loader_inv_def ptr_ok_def)
      next
        case False
        with res Canonicalized Some loaded inv show ?thesis
          by (auto simp: refresh_path_def Let_def loader_step_def)
      qed
    next
      case None
      obtain e ins ns where em: "emplace p (loaded_config_files s) = (e, ins, ns)"
        by (cases "emplace p (loaded_config_files s)") auto
      with res Canonicalized Some None
      have ch: "ch = [\<lparr>watched_path = ip, changed_config = Loaded_config e\<rparr>]"
        and s': "s' = s\<lparr>loaded_config_files := update_node e ?f ns\<rparr>"
        by (auto simp: refresh_path_def Let_def)
      have "cache_inv (update_node e ?f ns)"
        by (rule cache_inv_emplace_update [OF em c]) simp_all
      moreover have "distinct (keys (update_node e ?f ns))"
        using emplace_distinct [OF em d] by simp
      moreover have "ran (input_path_config_files s) \<subseteq> set (keys (update_node e ?f ns))"
        using ran emplace_keys [OF em] by auto
      moreover have "nodes_kept (loaded_config_files s) (update_node e ?f ns)"
        by (rule nodes_kept_update_node2) (rule nodes_kept_emplace [OF em])
      moreover have "e < length (update_node e ?f ns)"
        using emplace_entry(1) [OF em] by simp
      ultimately show ?thesis using ch s'
        by (simp add: loader_step_def loader_inv_def ptr_ok_def)
    qed
  qed
qed

lemma refresh_paths_step:
  assumes "loader_inv s" "refresh_paths fs ips changes s = Some (ch, s')"
  shows "\<exists>new. ch = changes @ new \<and> loader_step s (map changed_config new) s' \<and>
           watched_paths s' = watched_paths s \<and>
           input_path_config_files s' = input_path_config_files s \<and>
           list_all (\<lambda>c. watched_path c \<in> set ips) new"
  using assms
proof (induction ips arbitrary: changes s)
  case Nil
  then show ?case by (simp add: loader_step_same)
next
  case (Cons ip ips)
  from Cons.prems(2) obtain c1 s1 where r1: "refresh_path fs ip s = Some (c1, s1)"
    and r2: "refresh_paths fs ips (changes @ c1) s1 = Some (ch, s')"
    by (auto split: option.splits)
  from refresh_path_step [OF Cons.prems(1) r1]
  have st1: "loader_step s (map changed_config c1) s1" and w1: "watched_paths s1 = watched_paths s"
    and m1: "input_path_config_files s1 = input_path_config_files s"
    and p1: "list_all (\<lambda>c. watched_path c = ip) c1" by simp_all
  from st1 have inv1: "loader_inv s1" by (simp add: loader_step_def)
  from Cons.IH [OF inv1 r2] obtain new where new: "ch = (changes @ c1) @ new"
    "loader_step s1 (map changed_config new) s'" "watched_paths s' = watched_paths s1"
    "input_path_config_files s' = input_path_config_files s1"
    "list_all (\<lambda>c. watched_path c \<in> set ips) new" by blast
  have "loader_step s (map changed_config (c1 @ new)) s'"
    using loader_step_trans [OF st1 new(2)] by simp
  moreover have "list_all (\<lambda>c. watched_path c \<in> set (ip # ips)) (c1 @ new)"
    using p1 new(5) by (auto simp: list_all_iff)
  ultimately show ?case using new w1 m1 by (intro exI [of _ "c1 @ new"]) simp
qed

lemma refresh_step:
  assumes "loader_inv s" "refresh fs s = Some (ch, s')"
  shows "loader_step s (map changed_config ch) s' \<and> watched_paths s' = watched_paths s \<and>
         input_path_config_files s' = input_path_config_files s \<and>
         list_all (\<lambda>c. watched_path c \<in> set (watched_paths s)) ch"
  using refresh_paths_step [OF assms(1), of fs "watched_paths s" "[]" ch s'] assms(2)
  by (auto simp: refresh_def)

section \<open>The detector\<close>

lemma entry_ok_reload:
  "config_file_path c = Some k \<Longrightarrow>
   entry_ok (k, \<lparr>file_content = content, config = load_from_json content (reset c)\<rparr>)"
  by (simp add: entry_ok_def load_from_json_def reset_def)

lemma cache_inv_nth:
  "cache_inv ns \<Longrightarrow> i < length ns \<Longrightarrow> config_file_path (config (snd (ns ! i))) = Some (fst (ns ! i))"
  by (simp add: cache_inv_def list_all_length entry_ok_def)

lemma watch_ok_kept: "nodes_kept ns ms \<Longrightarrow> watch_ok ns wfile \<Longrightarrow> watch_ok ms wfile"
  using nodes_kept_keys [of ns ms] by (auto simp: watch_ok_def split: option.splits)

lemma walk_inv_calls [simp]: "walk_inv (w\<lparr>calls := cs\<rparr>) = walk_inv w"
  by (simp add: walk_inv_def)

lemma look_hit_step:
  assumes inv: "walk_inv w"
    and em: "emplace k (files w) = (e, ins, ns)"
  shows "walk_inv (if \<not> (watch_config_file_path (watch w) = Some k \<and>
                       content = file_content (snd (ns ! e)))
               then w\<lparr>found_config := Some e, did_change := True,
                 watch := (watch w)\<lparr>watch_config_file_path := Some k\<rparr>,
                 files := update_node e (\<lambda>x. \<lparr>file_content = content,
                   config = load_from_json content
                     (if ins then set_config_file_path k (reset (config x))
                      else reset (config x))\<rparr>) ns\<rparr>
               else w\<lparr>found_config := Some e, did_change := False, files := ns\<rparr>)"
    (is "walk_inv (if ?changed then ?w1 else ?w2)")
proof -
  from inv have d: "distinct (keys (files w))" and c: "cache_inv (files w)"
    and wk: "watch_ok (files w) (watch w)" by (simp_all add: walk_inv_def)
  note e = emplace_entry [OF em]
  have dn: "distinct (keys ns)" by (rule emplace_distinct [OF em d])
  show ?thesis
  proof (cases ?changed)
    case True
    let ?f = "\<lambda>x. \<lparr>file_content = content,
                   config = load_from_json content
                     (if ins then set_config_file_path k (reset (config x))
                      else reset (config x))\<rparr>"
    have "cache_inv (update_node e ?f ns)"
    proof (rule cache_inv_emplace_update [OF em c])
      assume ins then show "entry_ok (k, ?f new_loaded_config_file)" by simp
    next
      assume ni: "\<not> ins"
      with emplace_cases [OF em] have f: "find_node k (files w) = Some e" by simp
      then have "e < length (files w)" "fst (files w ! e) = k" by (auto dest: find_node_Some)
      with cache_inv_nth [OF c] have "config_file_path (config (snd (files w ! e))) = Some k"
        by simp
      with ni show "entry_ok (k, ?f (snd (files w ! e)))" by (simp add: entry_ok_reload)
    qed
    moreover have "k \<in> set (keys ns)" using e by (metis keys_def nth_map nth_mem length_map)
    ultimately show ?thesis using True dn e
      by (simp add: walk_inv_def watch_ok_def config_ptr_of_def ptr_ok_def)
  next
    case False
    then have "watch_config_file_path (watch w) = Some k" by simp
    with wk have "k \<in> set (keys (files w))" by (simp add: watch_ok_def)
    then have "find_node k (files w) \<noteq> None" by (simp add: find_node_None)
    with emplace_cases [OF em] have "ns = files w" by auto
    with False inv e show ?thesis
      by (simp add: walk_inv_def config_ptr_of_def ptr_ok_def)
  qed
qed

lemma look_in_directory_step:
  assumes "walk_inv w" "look_in_directory fs d names w = Some w'"
  shows "walk_inv w' \<and> nodes_kept (files w) (files w') \<and>
         watched_file_path (watch w') = watched_file_path (watch w)"
  using assms
proof (induction names arbitrary: w)
  case Nil
  then show ?case by simp
next
  case (Cons name names)
  let ?w1 = "w\<lparr>calls := calls w @ [Read_file d name]\<rparr>"
  from Cons.prems(1) have inv1: "walk_inv ?w1" by simp
  show ?case
  proof (cases "fs_read_file fs d name")
    case (Read_failed err nf)
    with Cons.prems(2) have "look_in_directory fs d names ?w1 = Some w'"
      by (simp add: Let_def split: if_splits)
    from Cons.IH [OF inv1 this] show ?thesis by simp
  next
    case (Read_ok content)
    let ?k = "append_component d name"
    obtain e ins ns where em: "emplace ?k (files ?w1) = (e, ins, ns)"
      by (cases "emplace ?k (files ?w1)") auto
    from em have em': "emplace ?k (files w) = (e, ins, ns)" by simp
    have kept: "nodes_kept (files w) ns" by (rule nodes_kept_emplace [OF em'])
    from Cons.prems(2) Read_ok em look_hit_step [OF inv1 em, of content] kept
    show ?thesis
      by (auto simp: Let_def nodes_kept_update_node2 split: if_splits)
  qed
qed

lemma get_config_file_loop_step:
  assumes "walk_inv w" "get_config_file_loop fs d w = Some w'"
  shows "walk_inv w' \<and> nodes_kept (files w) (files w') \<and>
         watched_file_path (watch w') = watched_file_path (watch w)"
  using assms
proof (induction fs d w rule: get_config_file_loop.induct)
  case (1 fs d w)
  let ?w1 = "w\<lparr>calls := calls w @ [Enter_directory d]\<rparr>"
  let ?r = "if found_config ?w1 = None then look_in_directory fs d config_file_names ?w1 else Some ?w1"
  from "1.prems"(2) obtain w2 where r: "?r = Some w2"
    and rest: "(case parent d of None \<Rightarrow> Some w2 | Some p \<Rightarrow> get_config_file_loop fs p w2) = Some w'"
    by (subst (asm) get_config_file_loop.simps) (auto simp: Let_def split: option.splits)
  from "1.prems"(1) have inv1: "walk_inv ?w1" by simp
  have st2: "walk_inv w2 \<and> nodes_kept (files w) (files w2) \<and>
         watched_file_path (watch w2) = watched_file_path (watch w)"
  proof (cases "found_config ?w1 = None")
    case True
    with r look_in_directory_step [OF inv1, of fs d config_file_names w2] show ?thesis by simp
  next
    case False
    with r inv1 show ?thesis by auto
  qed
  show ?case
  proof (cases "parent d")
    case None
    with rest st2 show ?thesis by simp
  next
    case (Some p)
    with rest have "get_config_file_loop fs p w2 = Some w'" by simp
    from "1.IH" [OF refl r Some _ this] st2
    show ?thesis by (auto intro: nodes_kept_trans)
  qed
qed

lemma get_config_file_step:
  assumes d: "distinct (keys ns)" and c: "cache_inv ns" and wk: "watch_ok ns wfile"
    and res: "get_config_file fs wfile ns cs = Some w"
  shows "walk_inv w \<and> nodes_kept ns (files w) \<and>
         watched_file_path (watch w) = watched_file_path wfile"
proof -
  from res obtain existing missing w0 where
    loop: "get_config_file_loop fs (start_directory existing missing)
            \<lparr>found_config = None, did_change = False, watch = wfile, files = ns,
             calls = cs @ [Canonicalize_path (watched_file_path wfile)]\<rparr> = Some w0"
    and w: "w = (case found_config w0 of Some entry \<Rightarrow> w0
                 | None \<Rightarrow> w0\<lparr>did_change := (watch_config_file_path (watch w0) \<noteq> None),
                            watch := (watch w0)\<lparr>watch_config_file_path := None\<rparr>\<rparr>)"
    by (auto simp: get_config_file_def split: canonical_path_result.splits option.splits)
  have "walk_inv \<lparr>found_config = None, did_change = False, watch = wfile, files = ns,
             calls = cs @ [Canonicalize_path (watched_file_path wfile)]\<rparr>"
    using d c wk by (simp add: walk_inv_def config_ptr_of_def ptr_ok_def)
  from get_config_file_loop_step [OF this loop] w show ?thesis
    by (auto simp: walk_inv_def watch_ok_def config_ptr_of_def ptr_ok_def split: option.splits)
qed

lemma list_all_watch_ok_kept:
  "nodes_kept ns ms \<Longrightarrow> list_all (watch_ok ns) ws \<Longrightarrow> list_all (watch_ok ms) ws"
  by (auto simp: list_all_iff intro: watch_ok_kept)

lemma get_config_for_file_step:
  assumes inv: "detector_inv d" and res: "get_config_for_file fs p d = Some (c, d')"
  shows "detector_step d [c] d'"
proof -
  from res obtain w where g: "get_config_file fs \<lparr>watched_file_path = p, watch_config_file_path = None\<rparr>
             (detector_config_files d) (fs_calls d) = Some w"
    and c: "c = config_ptr_of (found_config w)"
    and d': "d' = \<lparr>watches = watches d @ [watch w], detector_config_files = files w,
             fs_calls = calls w\<rparr>"
    by (auto simp: get_config_for_file_def split: option.splits)
  from inv have "distinct (keys (detector_config_files d))" "cache_inv (detector_config_files d)"
    "list_all (watch_ok (detector_config_files d)) (watches d)"
    by (simp_all add: detector_inv_def)
  moreover have "watch_ok (detector_config_files d) \<lparr>watched_file_path = p, watch_config_file_path = None\<rparr>"
    by (simp add: watch_ok_def)
  ultimately show ?thesis
    using get_config_file_step [OF _ _ _ g] c d'
    by (auto simp: detector_step_def detector_inv_def walk_inv_def intro: list_all_watch_ok_kept)
qed

lemma detector_step_trans:
  assumes "detector_step s p1 s1" "detector_step s1 p2 s2"
  shows "detector_step s (p1 @ p2) s2"
proof -
  from assms have k: "nodes_kept (detector_config_files s) (detector_config_files s2)"
    by (auto simp: detector_step_def intro: nodes_kept_trans)
  from assms have "list_all (ptr_ok (detector_config_files s2)) p1"
    by (auto simp: detector_step_def list_all_iff intro: nodes_kept_ptr_ok)
  with assms k show ?thesis by (simp add: detector_step_def)
qed

lemma refresh_watches_step:
  assumes "detector_inv d" "list_all (watch_ok (detector_config_files d)) wfiles"
    and "refresh_watches fs wfiles out d = Some (ch, d')"
  shows "\<exists>new. ch = out @ new \<and> detector_step d (map changed_config new) d' \<and>
           map watched_file_path (watches d') =
             map watched_file_path (watches d) @ map watched_file_path wfiles \<and>
           list_all (\<lambda>c. watched_path c \<in> watched_file_path ` set wfiles) new"
  using assms
proof (induction wfiles arbitrary: out d)
  case Nil
  then show ?case by (simp add: detector_step_def)
next
  case (Cons wfile wfiles)
  from Cons.prems(3) obtain w where
    g: "get_config_file fs wfile (detector_config_files d) (fs_calls d) = Some w"
    and rest: "refresh_watches fs wfiles
            (if did_change w
             then out @ [\<lparr>watched_path = watched_file_path (watch w),
                            changed_config = config_ptr_of (found_config w)\<rparr>]
             else out)
            \<lparr>watches = watches d @ [watch w], detector_config_files = files w,
             fs_calls = calls w\<rparr> = Some (ch, d')"
    by (auto split: option.splits)
  let ?d1 = "\<lparr>watches = watches d @ [watch w], detector_config_files = files w,
             fs_calls = calls w\<rparr>"
  let ?c1 = "if did_change w
             then [\<lparr>watched_path = watched_file_path (watch w),
                     changed_config = config_ptr_of (found_config w)\<rparr>]
             else []"
  from Cons.prems(1) have d: "distinct (keys (detector_config_files d))"
    and c: "cache_inv (detector_config_files d)"
    and ws: "list_all (watch_ok (detector_config_files d)) (watches d)"
    by (simp_all add: detector_inv_def)
  from Cons.prems(2) have wk: "watch_ok (detector_config_files d) wfile"
    and wks: "list_all (watch_ok (detector_config_files d)) wfiles" by simp_all
  from get_config_file_step [OF d c wk g]
  have w: "walk_inv w" "nodes_kept (detector_config_files d) (files w)"
    "watched_file_path (watch w) = watched_file_path wfile" by simp_all
  have inv1: "detector_inv ?d1"
    using w ws by (auto simp: detector_inv_def walk_inv_def intro: list_all_watch_ok_kept)
  have st1: "detector_step d (map changed_config ?c1) ?d1"
    using inv1 w by (simp add: detector_step_def walk_inv_def)
  have wks1: "list_all (watch_ok (detector_config_files ?d1)) wfiles"
    using wks w(2) by (auto intro: list_all_watch_ok_kept)
  from rest have rest': "refresh_watches fs wfiles (out @ ?c1) ?d1 = Some (ch, d')"
    by (simp split: if_splits)
  from Cons.IH [OF inv1 wks1 rest'] obtain new where new: "ch = (out @ ?c1) @ new"
    "detector_step ?d1 (map changed_config new) d'"
    "map watched_file_path (watches d') =
       map watched_file_path (watches ?d1) @ map watched_file_path wfiles"
    "list_all (\<lambda>c. watched_path c \<in> watched_file_path ` set wfiles) new" by blast
  have "detector_step d (map changed_config (?c1 @ new)) d'"
    using detector_step_trans [OF st1 new(2)] by simp
  moreover have "list_all (\<lambda>c. watched_path c \<in> watched_file_path ` set (wfile # wfiles)) (?c1 @ new)"
    using new(4) w(3) by (auto simp: list_all_iff)
  ultimately show ?case using new(1,3) w(3)
    by (intro exI [of _ "?c1 @ new"]) simp
qed

lemma detector_refresh_step:
  assumes "detector_inv d" "detector_refresh fs out d = Some (ch, d')"
  shows "\<exists>new. ch = out @ new \<and> detector_step d (map changed_config new) d' \<and>
           map watched_file_path (watches d') = map watched_file_path (watches d)"
proof -
  from assms(1) have "detector_inv (d\<lparr>watches := []\<rparr>)"
    "list_all (watch_ok (detector_config_files (d\<lparr>watches := []\<rparr>))) (watches d)"
    by (simp_all add: detector_inv_def)
  from refresh_watches_step [OF this] assms(2) show ?thesis
    by (fastforce simp: detector_refresh_def detector_step_def)
qed

lemma new_loader_inv: "loader_inv new_configuration_loader"
  by (simp add: loader_inv_def new_configuration_loader_def keys_def cache_inv_def)

lemma new_detector_inv: "detector_inv new_configuration_change_detector"
  by (simp add: detector_inv_def new_configuration_change_detector_def keys_def cache_inv_def)

lemma ptr_path_inj:
  assumes "distinct (keys ns)" "ptr_ok ns c1" "ptr_ok ns c2" "ptr_path ns c1 = ptr_path ns c2"
  shows "c1 = c2"
proof (cases c1)
  case Default_config
  with assms(4) show ?thesis by (cases c2) (simp_all add: ptr_path_def)
next
  case (Loaded_config i)
  with assms(4) obtain j where c2: "c2 = Loaded_config j" by (cases c2) (simp_all add: ptr_path_def)
  with Loaded_config assms have "i < length ns" "j < length ns" "fst (ns ! i) = fst (ns ! j)"
    by (simp_all add: ptr_ok_def ptr_path_def)
  then have ij: "i < length (keys ns)" "j < length (keys ns)" "keys ns ! i = keys ns ! j"
    by (simp_all add: keys_def)
  from nth_eq_iff_index_eq [OF assms(1) ij(1,2)] ij(3) have "i = j" by simp
  with Loaded_config c2 show ?thesis by simp
qed

section \<open>The walk from a directory to the root\<close>




lemma look_none:
  assumes "\<forall>name \<in> set names. \<exists>err. fs_read_file fs d name = Read_failed err True"
  shows "look_in_directory fs d names w = Some (w\<lparr>calls := calls w @ map (Read_file d) names\<rparr>)"
  using assms
proof (induction names arbitrary: w)
  case Nil
  then show ?case by simp
next
  case (Cons name names)
  then obtain err where "fs_read_file fs d name = Read_failed err True" by auto
  with Cons show ?case by (simp add: Let_def)
qed

lemma found_at_calls [simp]: "found_at (w\<lparr>calls := cs\<rparr>) p = found_at w p"
  by (simp add: found_at_def split: option.splits)

lemma loop_step_found:
  "found_config w = Some e \<Longrightarrow>
   get_config_file_loop fs d w =
     (case parent d of
        None \<Rightarrow> Some (w\<lparr>calls := calls w @ [Enter_directory d]\<rparr>)
      | Some p \<Rightarrow> get_config_file_loop fs p (w\<lparr>calls := calls w @ [Enter_directory d]\<rparr>))"
  by (subst get_config_file_loop.simps) (simp add: Let_def)

lemma loop_step_look:
  "found_config w = None \<Longrightarrow>
   look_in_directory fs d config_file_names (w\<lparr>calls := calls w @ [Enter_directory d]\<rparr>) = Some w2 \<Longrightarrow>
   get_config_file_loop fs d w =
     (case parent d of None \<Rightarrow> Some w2 | Some p \<Rightarrow> get_config_file_loop fs p w2)"
  by (subst get_config_file_loop.simps) (simp add: Let_def)

lemma look_first:
  assumes "fs_read_file fs d name = Read_ok content"
  shows "\<exists>w'. look_in_directory fs d (name # names) w = Some w' \<and>
           found_at w' (append_component d name) \<and>
           calls w' = calls w @ [Read_file d name]"
proof -
  let ?k = "append_component d name"
  obtain e ins ns where em: "emplace ?k (files w) = (e, ins, ns)"
    by (cases "emplace ?k (files w)") auto
  note e = emplace_entry [OF em]
  show ?thesis
  proof (cases "watch_config_file_path (watch w) = Some ?k \<and> content = file_content (snd (ns ! e))")
    case True
    with assms em e show ?thesis by (simp add: Let_def found_at_def)
  next
    case False
    with assms em e show ?thesis
      by (auto simp: Let_def found_at_def update_node_def)
  qed
qed

lemma look_hit:
  assumes "\<forall>n \<in> set pre. \<exists>err. fs_read_file fs d n = Read_failed err True"
    and "fs_read_file fs d name = Read_ok content"
  shows "\<exists>w'. look_in_directory fs d (pre @ name # post) w = Some w' \<and>
           found_at w' (append_component d name) \<and>
           calls w' = calls w @ map (Read_file d) (pre @ [name])"
  using assms(1)
proof (induction pre arbitrary: w)
  case Nil
  from look_first [OF assms(2), of post w] show ?case by simp
next
  case (Cons n pre)
  then obtain err where n: "fs_read_file fs d n = Read_failed err True" by auto
  from Cons have "\<forall>n \<in> set pre. \<exists>err. fs_read_file fs d n = Read_failed err True" by simp
  from Cons.IH [OF this, of "w\<lparr>calls := calls w @ [Read_file d n]\<rparr>"] n
  show ?case by (simp add: Let_def)
qed

lemma rev_prefixes_step: "d \<noteq> [] \<Longrightarrow> rev (prefixes d) = d # rev (prefixes (butlast d))"
proof -
  assume "d \<noteq> []"
  then have "d = butlast d @ [last d]" by simp
  then have "prefixes d = prefixes (butlast d) @ [d]"
    by (metis prefixes_snoc)
  then show ?thesis by simp
qed

lemma loop_found:
  assumes "found_config w = Some e"
  shows "get_config_file_loop fs d w =
           Some (w\<lparr>calls := calls w @ map Enter_directory (rev (prefixes d))\<rparr>)"
  using assms
proof (induction fs d w rule: get_config_file_loop.induct)
  case (1 fs d w)
  let ?w1 = "w\<lparr>calls := calls w @ [Enter_directory d]\<rparr>"
  from "1.prems" have f1: "found_config ?w1 = Some e" by simp
  show ?case
  proof (cases "parent d")
    case None
    then have "d = []" by (simp add: parent_def split: if_splits)
    with None show ?thesis by (simp add: loop_step_found [OF "1.prems"])
  next
    case (Some p)
    then have d: "d \<noteq> []" "p = butlast d" by (auto simp: parent_def split: if_splits)
    from f1 have r: "(if found_config ?w1 = None
            then look_in_directory fs d config_file_names ?w1 else Some ?w1) = Some ?w1" by simp
    from "1.IH" [OF refl r Some f1] Some d rev_prefixes_step [OF d(1)]
    show ?thesis by (simp add: loop_step_found [OF "1.prems"])
  qed
qed

lemma detector_walk_nearest:
  assumes nf: "found_config w = None"
    and nearer: "\<forall>d name. strict_prefix D d \<and> prefix d (D @ rest) \<and> name \<in> set config_file_names \<longrightarrow>
             (\<exists>err. fs_read_file fs d name = Read_failed err True)"
    and names: "config_file_names = pre @ name # post"
    and pre: "\<forall>n \<in> set pre. \<exists>err. fs_read_file fs D n = Read_failed err True"
    and hit: "fs_read_file fs D name = Read_ok content"
  shows "\<exists>w' before. get_config_file_loop fs (D @ rest) w = Some w' \<and>
           found_at w' (append_component D name) \<and>
           calls w' = calls w @ before @ [Read_file D name] @
                      map Enter_directory (tl (rev (prefixes D)))"
  using nf nearer
proof (induction rest arbitrary: w rule: rev_induct)
  case Nil
  let ?w1 = "w\<lparr>calls := calls w @ [Enter_directory D]\<rparr>"
  from look_hit [OF pre hit, of post ?w1] names obtain w2 where
    l: "look_in_directory fs D config_file_names ?w1 = Some w2"
    and f: "found_at w2 (append_component D name)"
    and c: "calls w2 = calls ?w1 @ map (Read_file D) (pre @ [name])" by auto
  from f obtain e where f2: "found_config w2 = Some e"
    by (auto simp: found_at_def split: option.splits)
  show ?case
  proof (cases "parent D")
    case None
    then have "D = []" by (simp add: parent_def split: if_splits)
    from None have g: "get_config_file_loop fs D w = Some w2"
      by (simp add: loop_step_look [OF Nil.prems(1) l])
    from \<open>D = []\<close> c
    have "calls w2 = calls w @ (Enter_directory D # map (Read_file D) pre) @ [Read_file D name] @
                      map Enter_directory (tl (rev (prefixes D)))" by simp
    with g f show ?thesis by auto
  next
    case (Some p)
    then have d: "D \<noteq> []" "p = butlast D" by (auto simp: parent_def split: if_splits)
    from Some loop_found [OF f2, of fs p]
    have "get_config_file_loop fs D w =
            Some (w2\<lparr>calls := calls w2 @ map Enter_directory (rev (prefixes p))\<rparr>)"
      by (simp add: loop_step_look [OF Nil.prems(1) l])
    moreover from c d rev_prefixes_step [OF d(1)]
    have "calls w2 @ map Enter_directory (rev (prefixes p)) =
            calls w @ (Enter_directory D # map (Read_file D) pre) @ [Read_file D name] @
                      map Enter_directory (tl (rev (prefixes D)))" by simp
    ultimately show ?thesis using f by auto
  qed
next
  case (snoc c rest)
  let ?start = "D @ rest @ [c]"
  let ?w1 = "w\<lparr>calls := calls w @ [Enter_directory ?start]\<rparr>"
  let ?w2 = "?w1\<lparr>calls := calls ?w1 @ map (Read_file ?start) config_file_names\<rparr>"
  have sp: "strict_prefix D ?start" by (simp add: strict_prefix_def)
  with snoc.prems(2) have "\<forall>name \<in> set config_file_names.
        \<exists>err. fs_read_file fs ?start name = Read_failed err True"
    by auto
  from look_none [OF this, of ?w1]
  have l: "look_in_directory fs ?start config_file_names ?w1 = Some ?w2" .
  have par: "parent ?start = Some (D @ rest)"
    by (simp add: parent_def butlast_append)
  have nearer': "\<forall>d name. strict_prefix D d \<and> prefix d (D @ rest) \<and> name \<in> set config_file_names \<longrightarrow>
             (\<exists>err. fs_read_file fs d name = Read_failed err True)"
  proof (intro allI impI)
    fix d name
    assume a: "strict_prefix D d \<and> prefix d (D @ rest) \<and> name \<in> set config_file_names"
    then have "prefix d (D @ rest @ [c])"
      by (metis append.assoc prefix_snoc)
    with a snoc.prems(2) show "\<exists>err. fs_read_file fs d name = Read_failed err True"
      by blast
  qed
  from snoc.prems(1) have nf2: "found_config ?w2 = None" by simp
  from snoc.IH [OF nf2 nearer'] obtain w' before where
    g: "get_config_file_loop fs (D @ rest) ?w2 = Some w'"
    and f: "found_at w' (append_component D name)"
    and c: "calls w' = calls ?w2 @ before @ [Read_file D name] @
                      map Enter_directory (tl (rev (prefixes D)))" by blast
  from par g have "get_config_file_loop fs ?start w = Some w'"
    by (simp add: loop_step_look [OF snoc.prems(1) l])
  moreover from c
  have "calls w' = calls w @ (Enter_directory ?start # map (Read_file ?start) config_file_names @ before) @
                      [Read_file D name] @ map Enter_directory (tl (rev (prefixes D)))" by simp
  ultimately show ?case using f by auto
qed



lemma get_config_file_nearest:
  assumes canon: "fs_canonicalize_path fs (watched_file_path wfile) = Canonicalized existing missing"
    and pre: "prefix D (start_directory existing missing)"
    and nearer: "\<forall>d name. strict_prefix D d \<and> prefix d (start_directory existing missing) \<and>
             name \<in> set config_file_names \<longrightarrow>
             (\<exists>err. fs_read_file fs d name = Read_failed err True)"
    and names: "config_file_names = before_names @ name # after_names"
    and miss: "\<forall>n \<in> set before_names. \<exists>err. fs_read_file fs D n = Read_failed err True"
    and hit: "fs_read_file fs D name = Read_ok content"
  shows "\<exists>w before. get_config_file fs wfile ns cs = Some w \<and>
           found_at w (append_component D name) \<and>
           calls w = cs @ [Canonicalize_path (watched_file_path wfile)] @ before @
                     [Read_file D name] @ map Enter_directory (tl (rev (prefixes D)))"
proof -
  from pre obtain rest where rest: "start_directory existing missing = D @ rest"
    by (auto simp: prefix_def)
  let ?w0 = "\<lparr>found_config = None, did_change = False, watch = wfile, files = ns,
             calls = cs @ [Canonicalize_path (watched_file_path wfile)]\<rparr>"
  have nf: "found_config ?w0 = None" by simp
  from nearer rest have nearer': "\<forall>d name. strict_prefix D d \<and> prefix d (D @ rest) \<and>
             name \<in> set config_file_names \<longrightarrow>
             (\<exists>err. fs_read_file fs d name = Read_failed err True)" by simp
  from detector_walk_nearest [OF nf nearer' names miss hit] obtain w before where
    g: "get_config_file_loop fs (D @ rest) ?w0 = Some w"
    and f: "found_at w (append_component D name)"
    and c: "calls w = calls ?w0 @ before @ [Read_file D name] @
                      map Enter_directory (tl (rev (prefixes D)))" by blast
  from f obtain e where "found_config w = Some e"
    by (auto simp: found_at_def split: option.splits)
  with canon rest g have "get_config_file fs wfile ns cs = Some w"
    by (simp add: get_config_file_def)
  with f c show ?thesis by auto
qed

section \<open>Watched paths and aborts of refresh\<close>

lemma find_in_directory_watched_paths [simp]:
  "find_config_file_in_directory fs (s\<lparr>watched_paths := ws\<rparr>) d cl names =
   find_config_file_in_directory fs s d cl names"
  by (induction names)
     (auto simp: get_loaded_config_def Let_def split: option.splits read_file_result.splits)

lemma find_config_file_watched_paths [simp]:
  "find_config_file_in_directory_and_ancestors fs (s\<lparr>watched_paths := ws\<rparr>) d cl =
   find_config_file_in_directory_and_ancestors fs s d cl"
proof (induction fs s d cl rule: find_config_file_in_directory_and_ancestors.induct)
  case (1 fs s d cl)
  show ?case
  proof (cases "find_config_file_in_directory fs s d cl config_file_names")
    case (Some found)
    then show ?thesis by (simp add: walk_found)
  next
    case None
    show ?thesis
    proof (cases "parent d")
      case pNone: None
      with None show ?thesis by (simp add: walk_root)
    next
      case (Some p)
      with None "1.IH" [OF None Some] show ?thesis by (simp add: walk_up)
    qed
  qed
qed

lemma find_and_load_in_directory_watched_paths:
  "find_and_load_config_file_in_directory_and_ancestors fs d ip (s\<lparr>watched_paths := ws\<rparr>) =
   map_option (\<lambda>(r, s'). (r, s'\<lparr>watched_paths := ws\<rparr>))
     (find_and_load_config_file_in_directory_and_ancestors fs d ip s)"
  by (simp add: find_and_load_config_file_in_directory_and_ancestors_def Let_def
      split: option.splits prod.splits)

lemma find_and_load_for_input_watched_paths:
  "find_and_load_config_file_for_input fs p (s\<lparr>watched_paths := ws\<rparr>) =
   map_option (\<lambda>(r, s'). (r, s'\<lparr>watched_paths := ws\<rparr>))
     (find_and_load_config_file_for_input fs p s)"
  by (simp add: find_and_load_config_file_for_input_def find_and_load_in_directory_watched_paths
      split: option.splits canonical_path_result.splits)

lemma find_and_load_in_directory_keeps_watched_paths:
  "find_and_load_config_file_in_directory_and_ancestors fs d ip s = Some (r, s') \<Longrightarrow>
   watched_paths s' = watched_paths s"
  by (auto simp: find_and_load_config_file_in_directory_and_ancestors_def Let_def
      split: option.splits prod.splits if_splits)

lemma find_and_load_for_input_keeps_watched_paths:
  "find_and_load_config_file_for_input fs p s = Some (r, s') \<Longrightarrow>
   watched_paths s' = watched_paths s"
  by (auto simp: find_and_load_config_file_for_input_def
      dest: find_and_load_in_directory_keeps_watched_paths
      split: option.splits canonical_path_result.splits)

lemma load_config_file_keeps_watched_paths:
  "load_config_file fs cp s = Some (r, s') \<Longrightarrow> watched_paths s' = watched_paths s"
  by (auto simp: load_config_file_def Let_def
      split: option.splits prod.splits if_splits canonical_path_result.splits read_file_result.splits)

lemma load_for_file_to_lint_keeps_watched_paths:
  "load_for_file_to_lint fs f s = Some (r, s') \<Longrightarrow> watched_paths s' = watched_paths s"
  by (auto simp: load_for_file_to_lint_def find_and_load_config_file_for_current_directory_def
      dest: find_and_load_in_directory_keeps_watched_paths
        find_and_load_for_input_keeps_watched_paths load_config_file_keeps_watched_paths
      split: option.splits canonical_path_result.splits)

lemma refresh_path_watched:
  "refresh_path fs ip s = Some (ch, s') \<Longrightarrow>
   list_all (\<lambda>c. watched_path c = ip) ch \<and> watched_paths s' = watched_paths s"
  by (auto simp: refresh_path_def Let_def
      split: option.splits prod.splits if_splits canonical_path_result.splits)

lemma refresh_paths_watched:
  "refresh_paths fs ips changes s = Some (ch, s') \<Longrightarrow>
   (\<exists>new. ch = changes @ new \<and> list_all (\<lambda>c. watched_path c \<in> set ips) new) \<and>
   watched_paths s' = watched_paths s"
proof (induction ips arbitrary: changes s)
  case Nil
  then show ?case by simp
next
  case (Cons ip ips)
  from Cons.prems obtain c1 s1 where r1: "refresh_path fs ip s = Some (c1, s1)"
    and r2: "refresh_paths fs ips (changes @ c1) s1 = Some (ch, s')"
    by (auto split: option.splits)
  from refresh_path_watched [OF r1] have p1: "list_all (\<lambda>c. watched_path c = ip) c1"
    and w1: "watched_paths s1 = watched_paths s" by simp_all
  from Cons.IH [OF r2] obtain new where new: "ch = (changes @ c1) @ new"
    "list_all (\<lambda>c. watched_path c \<in> set ips) new" "watched_paths s' = watched_paths s1" by blast
  have "list_all (\<lambda>c. watched_path c \<in> set (ip # ips)) (c1 @ new)"
    using p1 new(2) by (auto simp: list_all_iff)
  with new w1 show ?case by (intro conjI exI [of _ "c1 @ new"]) simp_all
qed

lemma refresh_watched:
  "refresh fs s = Some (ch, s') \<Longrightarrow>
   list_all (\<lambda>c. watched_path c \<in> set (watched_paths s)) ch \<and> watched_paths s' = watched_paths s"
  using refresh_paths_watched [of fs "watched_paths s" "[]" s ch s']
  by (auto simp: refresh_def)

lemma refresh_path_returns:
  "refresh_path fs ip s \<noteq> None \<longleftrightarrow> (\<exists>e m. canonicalize_path fs ip = Canonicalized e m)"
  by (auto simp: refresh_path_def Let_def
      split: option.splits prod.splits if_splits canonical_path_result.splits)

lemma refresh_paths_returns:
  "refresh_paths fs ips changes s \<noteq> None \<longleftrightarrow>
   (\<forall>p \<in> set ips. \<exists>e m. canonicalize_path fs p = Canonicalized e m)"
proof (induction ips arbitrary: changes s)
  case Nil
  then show ?case by simp
next
  case (Cons ip ips)
  show ?case
  proof (cases "refresh_path fs ip s")
    case None
    with refresh_path_returns [of fs ip s] show ?thesis by auto
  next
    case (Some r)
    obtain c1 s1 where r: "r = (c1, s1)" by (cases r)
    from Some refresh_path_returns [of fs ip s]
    have "\<exists>e m. canonicalize_path fs ip = Canonicalized e m" by simp
    with Some r Cons.IH [of "changes @ c1" s1] show ?thesis by simp
  qed
qed

lemma refresh_returns:
  "refresh fs s \<noteq> None \<longleftrightarrow>
   (\<forall>p \<in> set (watched_paths s). \<exists>e m. canonicalize_path fs p = Canonicalized e m)"
  unfolding refresh_def by (rule refresh_paths_returns)

lemma get_config_file_aborts:
  "fs_canonicalize_path fs (watched_file_path wfile) = Canonicalize_failed err \<Longrightarrow>
   get_config_file fs wfile ns cs = None"
  by (simp add: get_config_file_def)

lemma refresh_watches_aborts:
  assumes "\<exists>wfile \<in> set wfiles. \<exists>err.
             fs_canonicalize_path fs (watched_file_path wfile) = Canonicalize_failed err"
  shows "refresh_watches fs wfiles out d = None"
  using assms
proof (induction wfiles arbitrary: out d)
  case Nil
  then show ?case by simp
next
  case (Cons wfile wfiles)
  show ?case
  proof (cases "get_config_file fs wfile (detector_config_files d) (fs_calls d)")
    case None
    then show ?thesis by simp
  next
    case (Some w)
    with get_config_file_aborts [of fs wfile] Cons.prems
    have "\<exists>wfile \<in> set wfiles. \<exists>err.
             fs_canonicalize_path fs (watched_file_path wfile) = Canonicalize_failed err"
      by auto
    from Cons.IH [OF this] Some show ?thesis by simp
  qed
qed

section \<open>What calls resolve to\<close>

lemma fst_nth_update_node: "fst (update_node i f ns ! j) = fst (ns ! j)"
proof (cases "i < length ns")
  case True
  then show ?thesis by (cases "j = i") (simp_all add: update_node_def)
next
  case False
  then have "ns[i := (fst (ns ! i), f (snd (ns ! i)))] = ns" by (simp add: list_update_beyond)
  then show ?thesis by (simp add: update_node_def)
qed

lemma ptr_path_update_node [simp]: "ptr_path (update_node i f ns) c = ptr_path ns c"
  by (simp add: ptr_path_def fst_nth_update_node split: config_ptr.splits)

lemma resolution_ok_kept:
  "nodes_kept ns ms \<Longrightarrow> resolution_ok ns r \<Longrightarrow> resolution_ok ms r"
  by (cases "snd r")
     (auto simp: resolution_ok_def ptr_ok_def ptr_path_def nodes_kept_nth nodes_kept_def)

lemma resolution_ok_Default [simp]: "resolution_ok ns (None, Default_config)"
  by (simp add: resolution_ok_def ptr_ok_def ptr_path_def)

lemma resolution_ok_Loaded:
  "resolution_ok ns (Some p, Loaded_config e) \<longleftrightarrow> e < length ns \<and> fst (ns ! e) = p"
  by (auto simp: resolution_ok_def ptr_ok_def ptr_path_def)

lemma loader_res_step_trans:
  assumes "loader_res_step s r1 s1" "loader_res_step s1 r2 s2"
  shows "loader_res_step s (r1 @ r2) s2"
proof -
  from assms have k: "nodes_kept (loaded_config_files s) (loaded_config_files s2)"
    by (auto simp: loader_res_step_def intro: nodes_kept_trans)
  from assms have "list_all (resolution_ok (loaded_config_files s2)) r1"
    by (auto simp: loader_res_step_def list_all_iff intro: resolution_ok_kept)
  with assms k show ?thesis by (simp add: loader_res_step_def)
qed

lemma detector_res_step_trans:
  assumes "detector_res_step s r1 s1" "detector_res_step s1 r2 s2"
  shows "detector_res_step s (r1 @ r2) s2"
proof -
  from assms have k: "nodes_kept (detector_config_files s) (detector_config_files s2)"
    by (auto simp: detector_res_step_def intro: nodes_kept_trans)
  from assms have "list_all (resolution_ok (detector_config_files s2)) r1"
    by (auto simp: detector_res_step_def list_all_iff intro: resolution_ok_kept)
  with assms k show ?thesis by (simp add: detector_res_step_def)
qed

lemma load_config_file_path:
  assumes "load_config_file fs cp s = Some (Config_ok c, s')"
  shows "ptr_path (loaded_config_files s') c = resolved_config_file fs cp"
proof (cases "canonicalize_path fs cp")
  case (Canonicalize_failed err)
  with assms show ?thesis by (simp add: load_config_file_def)
next
  case (Canonicalized existing missing)
  let ?c = "existing @ missing"
  show ?thesis
  proof (cases "get_loaded_config s ?c")
    case (Some e)
    then have "fst (loaded_config_files s ! e) = ?c"
      by (auto simp: get_loaded_config_def dest: find_node_Some)
    with assms Canonicalized Some show ?thesis
      by (auto simp: load_config_file_def resolved_config_file_def ptr_path_def)
  next
    case None
    show ?thesis
    proof (cases "read_file fs ?c")
      case (Read_failed err nf)
      with assms Canonicalized None show ?thesis by (simp add: load_config_file_def)
    next
      case (Read_ok content)
      obtain e ins ns where em: "emplace ?c (loaded_config_files s) = (e, ins, ns)"
        by (cases "emplace ?c (loaded_config_files s)") auto
      with assms Canonicalized None Read_ok have "c = Loaded_config e"
        and "s' = s\<lparr>loaded_config_files := load_into_node e content ?c ns\<rparr>"
        by (auto simp: load_config_file_def split: if_splits)
      with emplace_entry(2) [OF em] Canonicalized show ?thesis
        by (simp add: resolved_config_file_def load_into_node_def ptr_path_def fst_nth_update_node)
    qed
  qed
qed

lemma find_and_load_in_directory_path:
  assumes "find_and_load_config_file_in_directory_and_ancestors fs d ip s = Some (Config_ok c, s')"
  shows "ptr_path (loaded_config_files s') c = resolved_in_directory fs d s"
proof -
  let ?found = "find_config_file_in_directory_and_ancestors fs s d True"
  from assms have noerr: "found_error ?found = []"
    by (auto simp: find_and_load_config_file_in_directory_and_ancestors_def Let_def split: if_splits)
  show ?thesis
  proof (cases "found_path ?found")
    case None
    with assms noerr show ?thesis
      by (auto simp: find_and_load_config_file_in_directory_and_ancestors_def Let_def
          resolved_in_directory_def ptr_path_def)
  next
    case (Some p)
    show ?thesis
    proof (cases "already_loaded ?found")
      case loaded: (Some e)
      from find_config_file_loaded [OF loaded] Some
      have "find_node p (loaded_config_files s) = Some e" by simp
      then have k: "fst (loaded_config_files s ! e) = p" by (auto dest: find_node_Some)
      from assms noerr Some loaded have "c = Loaded_config e"
        "loaded_config_files s' = loaded_config_files s"
        by (auto simp: find_and_load_config_file_in_directory_and_ancestors_def Let_def
            split: option.splits)
      with k noerr Some show ?thesis by (simp add: resolved_in_directory_def ptr_path_def)
    next
      case None
      obtain e ins ns where em: "emplace p (loaded_config_files s) = (e, ins, ns)"
        by (cases "emplace p (loaded_config_files s)") auto
      from assms noerr Some None em have "c = Loaded_config e"
        "loaded_config_files s' = load_into_node e (found_file_content ?found) p ns"
        by (auto simp: find_and_load_config_file_in_directory_and_ancestors_def Let_def
            split: option.splits if_splits)
      with emplace_entry(2) [OF em] noerr Some show ?thesis
        by (simp add: resolved_in_directory_def load_into_node_def ptr_path_def fst_nth_update_node)
    qed
  qed
qed

lemma find_and_load_for_input_path:
  assumes "find_and_load_config_file_for_input fs ip s = Some (Config_ok c, s')"
  shows "ptr_path (loaded_config_files s') c = resolved_for_input fs ip s"
proof (cases "input_path_config_files s ip")
  case (Some p)
  with assms obtain e where "find_node p (loaded_config_files s) = Some e"
    "c = Loaded_config e" "s' = s"
    by (auto simp: find_and_load_config_file_for_input_def split: option.splits)
  with Some show ?thesis
    by (auto simp: resolved_for_input_def ptr_path_def dest: find_node_Some)
next
  case None
  show ?thesis
  proof (cases "canonicalize_path fs ip")
    case (Canonicalize_failed err)
    with None assms show ?thesis by (simp add: find_and_load_config_file_for_input_def)
  next
    case (Canonicalized existing missing)
    with None assms find_and_load_in_directory_path [of fs _ "Some ip" s c s'] show ?thesis
      by (simp add: find_and_load_config_file_for_input_def resolved_for_input_def)
  qed
qed

lemma find_and_load_for_cwd_path:
  assumes "find_and_load_config_file_for_current_directory fs s = Some (Config_ok c, s')"
  shows "ptr_path (loaded_config_files s') c = resolved_for_current_directory fs s"
proof (cases "canonicalize_path fs ''.''")
  case (Canonicalize_failed err)
  with assms show ?thesis by (simp add: find_and_load_config_file_for_current_directory_def)
next
  case (Canonicalized existing missing)
  with assms find_and_load_in_directory_path [of fs _ None s c s'] show ?thesis
    by (simp add: find_and_load_config_file_for_current_directory_def
        resolved_for_current_directory_def)
qed

lemma resolved_for_input_watched_paths [simp]:
  "resolved_for_input fs ip (s\<lparr>watched_paths := ws\<rparr>) = resolved_for_input fs ip s"
  by (simp add: resolved_for_input_def resolved_in_directory_def
      split: option.splits canonical_path_result.splits)

lemma load_for_file_res:
  assumes inv: "loader_inv s" and res: "loader_call_result (Load_for_file fs p) s = Some (rs, s')"
  shows "loader_res_step s rs s'"
proof -
  from res obtain r where l: "load_for_file fs p s = Some (r, s')"
    and rs: "rs = map (Pair (resolved_for_input fs (c_str p) s)) (handed_out r)" by auto
  from load_for_file_step [OF inv l] have st: "loader_step s (handed_out r) s'" .
  show ?thesis
  proof (cases r)
    case (Config_error err)
    with st rs show ?thesis by (simp add: loader_res_step_def loader_step_def handed_out_def)
  next
    case (Config_ok c)
    with l find_and_load_for_input_path [of fs "c_str p" "s\<lparr>watched_paths := watched_paths s @ [p]\<rparr>" c s']
    have "ptr_path (loaded_config_files s') c = resolved_for_input fs (c_str p) s"
      by (simp add: load_for_file_def)
    with st rs Config_ok show ?thesis
      by (simp add: loader_res_step_def loader_step_def handed_out_def resolution_ok_def)
  qed
qed

lemma load_for_file_to_lint_res:
  assumes inv: "loader_inv s"
    and res: "loader_call_result (Load_for_file_to_lint fs f) s = Some (rs, s')"
  shows "loader_res_step s rs s'"
proof -
  from res obtain r where l: "load_for_file_to_lint fs f s = Some (r, s')"
    and rs: "rs = map (Pair (resolved_for_file_to_lint fs f s)) (handed_out r)" by auto
  from load_for_file_to_lint_step [OF inv l] have st: "loader_step s (handed_out r) s'" .
  show ?thesis
  proof (cases r)
    case (Config_error err)
    with st rs show ?thesis by (simp add: loader_res_step_def loader_step_def handed_out_def)
  next
    case (Config_ok c)
    with l have "ptr_path (loaded_config_files s') c = resolved_for_file_to_lint fs f s"
      by (auto simp: load_for_file_to_lint_def resolved_for_file_to_lint_def
          dest: load_config_file_path find_and_load_for_input_path find_and_load_for_cwd_path
          split: option.splits)
    with st rs Config_ok show ?thesis
      by (simp add: loader_res_step_def loader_step_def handed_out_def resolution_ok_def)
  qed
qed

lemma find_in_directory_unchecked:
  "find_config_file_in_directory fs s d False names =
   find_config_file_in_directory fs s' d False names"
  by (induction names) (auto simp: Let_def split: read_file_result.splits)

lemma walk_unchecked:
  "find_config_file_in_directory_and_ancestors fs s d False =
   find_config_file_in_directory_and_ancestors fs s' d False"
proof (induction fs s d "False" rule: find_config_file_in_directory_and_ancestors.induct)
  case (1 fs s d)
  show ?case
  proof (cases "find_config_file_in_directory fs s d False config_file_names")
    case (Some found)
    moreover from Some have "find_config_file_in_directory fs s' d False config_file_names = Some found"
      using find_in_directory_unchecked [of fs s d config_file_names s'] by simp
    ultimately show ?thesis by (simp add: walk_found)
  next
    case None
    then have n': "find_config_file_in_directory fs s' d False config_file_names = None"
      using find_in_directory_unchecked [of fs s d config_file_names s'] by simp
    show ?thesis
    proof (cases "parent d")
      case pNone: None
      with None n' show ?thesis by (simp add: walk_root)
    next
      case (Some p)
      with None n' "1.hyps" [OF None Some] show ?thesis by (simp add: walk_up)
    qed
  qed
qed

lemma find_node_snoc:
  "find_node k ns = None \<Longrightarrow> find_node k (ns @ [(k, v)]) = Some (length ns)"
  by (induction ns) (simp_all split: if_splits)

lemma find_node_emplace:
  assumes "emplace k ns = (e, ins, ms)"
  shows "find_node k ms = Some e"
  using emplace_cases [OF assms] by (auto simp: find_node_snoc)

text \<open>What one round of the loader's refresh leaves for the path it resolved.\<close>

lemma refresh_path_resolves:
  assumes "refresh_path fs ip s = Some (ch, s')"
    and "canonicalize_path fs ip = Canonicalized existing missing"
    and "found_path (find_config_file_in_directory_and_ancestors fs s0
           (start_directory existing missing) False) = Some q"
  shows "\<exists>i. find_node q (loaded_config_files s') = Some i \<and>
             file_content (snd (loaded_config_files s' ! i)) =
               found_file_content (find_config_file_in_directory_and_ancestors fs s0
                 (start_directory existing missing) False)"
proof -
  let ?latest = "find_config_file_in_directory_and_ancestors fs s (start_directory existing missing) False"
  have eq: "find_config_file_in_directory_and_ancestors fs s0 (start_directory existing missing) False = ?latest"
    by (rule walk_unchecked)
  with assms(3) have fp: "found_path ?latest = Some q" by simp
  let ?content = "found_file_content ?latest"
  let ?f = "\<lambda>e. \<lparr>file_content = ?content,
               config = load_from_json ?content (set_config_file_path q (reset (config e)))\<rparr>"
  show ?thesis
  proof (cases "get_loaded_config s q")
    case (Some i)
    then have i: "find_node q (loaded_config_files s) = Some i" "i < length (loaded_config_files s)"
      by (auto simp: get_loaded_config_def dest: find_node_Some)
    show ?thesis
    proof (cases "?content \<noteq> file_content (snd (loaded_config_files s ! i))")
      case True
      with assms(1,2) fp Some
      have "s' = s\<lparr>loaded_config_files := update_node i ?f (loaded_config_files s)\<rparr>"
        by (auto simp: refresh_path_def Let_def)
      with i eq show ?thesis by (simp add: nth_update_node)
    next
      case False
      with assms(1,2) fp Some have "s' = s" by (auto simp: refresh_path_def Let_def)
      with i False eq show ?thesis by simp
    qed
  next
    case None
    obtain e ins ns where em: "emplace q (loaded_config_files s) = (e, ins, ns)"
      by (cases "emplace q (loaded_config_files s)") auto
    with assms(1,2) fp None
    have "s' = s\<lparr>loaded_config_files := update_node e ?f ns\<rparr>"
      by (auto simp: refresh_path_def Let_def)
    with find_node_emplace [OF em] emplace_entry(1) [OF em] eq show ?thesis
      by (simp add: nth_update_node)
  qed
qed

lemma refresh_paths_append:
  "refresh_paths fs (ips @ [ip]) changes s =
     (case refresh_paths fs ips changes s of
        None \<Rightarrow> None
      | Some (ch1, s1) \<Rightarrow>
          (case refresh_path fs ip s1 of
             None \<Rightarrow> None
           | Some (ch2, s2) \<Rightarrow> Some (ch1 @ ch2, s2)))"
  by (induction ips arbitrary: changes s) (auto split: option.splits)

lemma refresh_path_changes_path:
  assumes "refresh_path fs ip s = Some (ch, s')"
  shows "list_all (\<lambda>c. ptr_path (loaded_config_files s') (changed_config c) =
                        refresh_resolved fs (watched_path c)) ch"
proof (cases "canonicalize_path fs ip")
  case (Canonicalize_failed err)
  with assms show ?thesis by (simp add: refresh_path_def)
next
  case (Canonicalized existing missing)
  let ?latest = "find_config_file_in_directory_and_ancestors fs s (start_directory existing missing) False"
  have rr: "refresh_resolved fs ip = found_path ?latest"
    using Canonicalized walk_unchecked [of fs new_configuration_loader _ s]
    by (simp add: refresh_resolved_def)
  let ?content = "found_file_content ?latest"
  show ?thesis
  proof (cases "found_path ?latest")
    case None
    with assms Canonicalized rr show ?thesis
      by (auto simp: refresh_path_def Let_def ptr_path_def split: option.splits)
  next
    case (Some q)
    let ?f = "\<lambda>e. \<lparr>file_content = ?content,
               config = load_from_json ?content (set_config_file_path q (reset (config e)))\<rparr>"
    show ?thesis
    proof (cases "get_loaded_config s q")
      case loaded: (Some i)
      then have i: "fst (loaded_config_files s ! i) = q"
        by (auto simp: get_loaded_config_def dest: find_node_Some)
      with assms Canonicalized Some loaded rr show ?thesis
        by (auto simp: refresh_path_def Let_def ptr_path_def fst_nth_update_node split: if_splits)
    next
      case None
      obtain e ins ns where em: "emplace q (loaded_config_files s) = (e, ins, ns)"
        by (cases "emplace q (loaded_config_files s)") auto
      with assms Canonicalized Some None rr emplace_entry(2) [OF em] show ?thesis
        by (auto simp: refresh_path_def Let_def ptr_path_def fst_nth_update_node)
    qed
  qed
qed

lemma refresh_path_res:
  assumes inv: "loader_inv s" and res: "refresh_path fs ip s = Some (ch, s')"
  shows "loader_res_step s (map (\<lambda>c. (refresh_resolved fs (watched_path c), changed_config c)) ch) s'"
  using refresh_path_step [OF inv res] refresh_path_changes_path [OF res]
  by (auto simp: loader_res_step_def loader_step_def list_all_iff resolution_ok_def)

lemma refresh_paths_res:
  assumes "loader_inv s" "refresh_paths fs ips changes s = Some (ch, s')"
  shows "\<exists>new. ch = changes @ new \<and>
           loader_res_step s (map (\<lambda>c. (refresh_resolved fs (watched_path c), changed_config c)) new) s'"
  using assms
proof (induction ips arbitrary: changes s)
  case Nil
  then show ?case by (simp add: loader_res_step_def)
next
  case (Cons ip ips)
  from Cons.prems(2) obtain c1 s1 where r1: "refresh_path fs ip s = Some (c1, s1)"
    and r2: "refresh_paths fs ips (changes @ c1) s1 = Some (ch, s')"
    by (auto split: option.splits)
  note st1 = refresh_path_res [OF Cons.prems(1) r1]
  then have inv1: "loader_inv s1" by (simp add: loader_res_step_def)
  from Cons.IH [OF inv1 r2] obtain new where new: "ch = (changes @ c1) @ new"
    "loader_res_step s1 (map (\<lambda>c. (refresh_resolved fs (watched_path c), changed_config c)) new) s'"
    by blast
  from loader_res_step_trans [OF st1 new(2)] new(1) show ?case
    by (intro exI [of _ "c1 @ new"]) simp
qed

lemma refresh_res:
  assumes inv: "loader_inv s" and res: "loader_call_result (Refresh fs) s = Some (rs, s')"
  shows "loader_res_step s rs s'"
proof -
  from res obtain ch where r: "refresh fs s = Some (ch, s')"
    and rs: "rs = map (\<lambda>c. (refresh_resolved fs (watched_path c), changed_config c)) ch" by auto
  from refresh_paths_res [OF inv, of fs "watched_paths s" "[]" ch s'] r rs show ?thesis
    by (auto simp: refresh_def)
qed

lemma loader_call_res:
  assumes "loader_inv s" "loader_call_result c s = Some (rs, s')"
  shows "loader_res_step s rs s'"
proof (cases c)
  case (Load_for_file fs p)
  with assms(2) have "loader_call_result (Load_for_file fs p) s = Some (rs, s')" by simp
  then show ?thesis by (rule load_for_file_res [OF assms(1)])
next
  case (Load_for_file_to_lint fs f)
  with assms(2) have "loader_call_result (Load_for_file_to_lint fs f) s = Some (rs, s')" by simp
  then show ?thesis by (rule load_for_file_to_lint_res [OF assms(1)])
next
  case (Refresh fs)
  with assms(2) have "loader_call_result (Refresh fs) s = Some (rs, s')" by simp
  then show ?thesis by (rule refresh_res [OF assms(1)])
qed

lemma run_loader_res:
  assumes "loader_inv s" "list_all (resolution_ok (loaded_config_files s)) rs"
    and "run_loader cs rs s = Some (rs', s')"
  shows "loader_res_step s rs' s'"
  using assms
proof (induction cs arbitrary: rs s)
  case Nil
  then show ?case by (simp add: loader_res_step_def)
next
  case (Cons c cs)
  from Cons.prems(3) obtain new s1 where c: "loader_call_result c s = Some (new, s1)"
    and r: "run_loader cs (rs @ new) s1 = Some (rs', s')"
    by (auto split: option.splits)
  from Cons.prems(1,2) have "loader_res_step s rs s" by (simp add: loader_res_step_def)
  from loader_res_step_trans [OF this loader_call_res [OF Cons.prems(1) c]]
  have st: "loader_res_step s (rs @ new) s1" .
  then have "loader_inv s1" "list_all (resolution_ok (loaded_config_files s1)) (rs @ new)"
    by (simp_all add: loader_res_step_def)
  from Cons.IH [OF this r] st show ?case
    by (auto simp: loader_res_step_def intro: nodes_kept_trans)
qed

lemma look_result:
  assumes "look_in_directory fs d names w = Some w'"
  shows "(found_config w' = found_config w \<and> watch w' = watch w \<and> files w' = files w) \<or>
         (\<exists>name. found_at w' (append_component d name))"
  using assms
proof (induction names arbitrary: w)
  case Nil
  then show ?case by simp
next
  case (Cons name names)
  show ?case
  proof (cases "fs_read_file fs d name")
    case (Read_ok content)
    from look_first [OF Read_ok, of names w] Cons.prems show ?thesis by auto
  next
    case (Read_failed err nf)
    with Cons.prems have "look_in_directory fs d names (w\<lparr>calls := calls w @ [Read_file d name]\<rparr>) = Some w'"
      by (simp add: Let_def split: if_splits)
    from Cons.IH [OF this] show ?thesis by simp
  qed
qed

lemma look_rel:
  assumes "look_in_directory fs d names w1 = Some w1'"
    and "found_config w1 = None" "found_config w2 = None"
  shows "\<exists>w2'. look_in_directory fs d names w2 = Some w2' \<and>
           ((found_config w1' = None \<and> found_config w2' = None) \<or>
            (\<exists>p. found_at w1' p \<and> found_at w2' p))"
  using assms
proof (induction names arbitrary: w1 w2)
  case Nil
  then show ?case by simp
next
  case (Cons name names)
  show ?case
  proof (cases "fs_read_file fs d name")
    case (Read_ok content)
    from look_first [OF Read_ok, of names w1] look_first [OF Read_ok, of names w2] Cons.prems(1)
    show ?thesis by auto
  next
    case (Read_failed err nf)
    with Cons.prems(1) have nf: nf
      and l: "look_in_directory fs d names (w1\<lparr>calls := calls w1 @ [Read_file d name]\<rparr>) = Some w1'"
      by (simp_all add: Let_def split: if_splits)
    from Cons.IH [OF l, of "w2\<lparr>calls := calls w2 @ [Read_file d name]\<rparr>"] Cons.prems(2,3)
      Read_failed nf
    show ?thesis by (simp add: Let_def)
  qed
qed

lemma loop_found_at:
  assumes "found_at w p"
  shows "\<exists>w'. get_config_file_loop fs d w = Some w' \<and> found_at w' p"
proof -
  from assms obtain e where "found_config w = Some e"
    by (auto simp: found_at_def split: option.splits)
  from loop_found [OF this, of fs d] assms show ?thesis by simp
qed

lemma loop_rel:
  assumes "get_config_file_loop fs d w1 = Some w1'"
    and "found_config w1 = None" "found_config w2 = None"
  shows "\<exists>w2'. get_config_file_loop fs d w2 = Some w2' \<and>
           ((found_config w1' = None \<and> found_config w2' = None) \<or>
            (\<exists>p. found_at w1' p \<and> found_at w2' p))"
  using assms
proof (induction d arbitrary: w1 w2 rule: rev_induct)
  case Nil
  let ?a1 = "w1\<lparr>calls := calls w1 @ [Enter_directory []]\<rparr>"
  let ?a2 = "w2\<lparr>calls := calls w2 @ [Enter_directory []]\<rparr>"
  have par: "parent [] = None" by (simp add: parent_def)
  from Nil.prems(1,2) obtain b1 where l1: "look_in_directory fs [] config_file_names ?a1 = Some b1"
    by (subst (asm) get_config_file_loop.simps) (auto simp: Let_def split: option.splits)
  from look_rel [OF l1, of ?a2] Nil.prems(2,3) obtain b2 where
    l2: "look_in_directory fs [] config_file_names ?a2 = Some b2"
    and rel: "(found_config b1 = None \<and> found_config b2 = None) \<or>
              (\<exists>p. found_at b1 p \<and> found_at b2 p)" by auto
  from Nil.prems(1) par have "w1' = b1" by (simp add: loop_step_look [OF Nil.prems(2) l1])
  moreover from par have "get_config_file_loop fs [] w2 = Some b2"
    by (simp add: loop_step_look [OF Nil.prems(3) l2])
  ultimately show ?case using rel by simp
next
  case (snoc x xs)
  let ?d = "xs @ [x]"
  let ?a1 = "w1\<lparr>calls := calls w1 @ [Enter_directory ?d]\<rparr>"
  let ?a2 = "w2\<lparr>calls := calls w2 @ [Enter_directory ?d]\<rparr>"
  have par: "parent ?d = Some xs" by (simp add: parent_def)
  from snoc.prems(1,2) obtain b1 where l1: "look_in_directory fs ?d config_file_names ?a1 = Some b1"
    by (subst (asm) get_config_file_loop.simps) (auto simp: Let_def split: option.splits)
  from look_rel [OF l1, of ?a2] snoc.prems(2,3) obtain b2 where
    l2: "look_in_directory fs ?d config_file_names ?a2 = Some b2"
    and rel: "(found_config b1 = None \<and> found_config b2 = None) \<or>
              (\<exists>p. found_at b1 p \<and> found_at b2 p)" by auto
  from snoc.prems(1) par have g1: "get_config_file_loop fs xs b1 = Some w1'"
    by (simp add: loop_step_look [OF snoc.prems(2) l1])
  from par have g2: "get_config_file_loop fs ?d w2 = get_config_file_loop fs xs b2"
    by (simp add: loop_step_look [OF snoc.prems(3) l2])
  from rel show ?case
  proof
    assume "found_config b1 = None \<and> found_config b2 = None"
    with snoc.IH [OF g1, of b2] g2 show ?thesis by simp
  next
    assume "\<exists>p. found_at b1 p \<and> found_at b2 p"
    then obtain p where p: "found_at b1 p" "found_at b2 p" by blast
    from loop_found_at [OF p(1), of fs xs] g1 have "found_at w1' p" by simp
    moreover from loop_found_at [OF p(2), of fs xs] g2
    obtain w2' where "get_config_file_loop fs ?d w2 = Some w2'" "found_at w2' p" by auto
    ultimately show ?thesis by blast
  qed
qed

lemma loop_result:
  assumes "get_config_file_loop fs d w = Some w'" "found_config w = None"
  shows "(found_config w' = None \<and> watch w' = watch w) \<or> (\<exists>p. found_at w' p)"
  using assms
proof (induction d arbitrary: w rule: rev_induct)
  case Nil
  let ?a = "w\<lparr>calls := calls w @ [Enter_directory []]\<rparr>"
  have par: "parent [] = None" by (simp add: parent_def)
  from Nil.prems obtain b where l: "look_in_directory fs [] config_file_names ?a = Some b"
    by (subst (asm) get_config_file_loop.simps) (auto simp: Let_def split: option.splits)
  from Nil.prems(1) par have "w' = b" by (simp add: loop_step_look [OF Nil.prems(2) l])
  with look_result [OF l] Nil.prems(2) show ?case by auto
next
  case (snoc x xs)
  let ?d = "xs @ [x]"
  let ?a = "w\<lparr>calls := calls w @ [Enter_directory ?d]\<rparr>"
  have par: "parent ?d = Some xs" by (simp add: parent_def)
  from snoc.prems obtain b where l: "look_in_directory fs ?d config_file_names ?a = Some b"
    by (subst (asm) get_config_file_loop.simps) (auto simp: Let_def split: option.splits)
  from snoc.prems(1) par have g: "get_config_file_loop fs xs b = Some w'"
    by (simp add: loop_step_look [OF snoc.prems(2) l])
  from look_result [OF l] show ?case
  proof
    assume a: "found_config b = found_config ?a \<and> watch b = watch ?a \<and> files b = files ?a"
    with snoc.prems(2) have "found_config b = None" by simp
    from snoc.IH [OF g this] a show ?thesis by auto
  next
    assume "\<exists>name. found_at b (append_component ?d name)"
    then obtain p where "found_at b p" by blast
    from loop_found_at [OF this, of fs xs] g show ?thesis by auto
  qed
qed

text \<open>
  What \<open>get_config_file\<close> returns stands for the path it records in the watch, and that
  path depends on the disk and the watched file alone.
\<close>

lemma get_config_file_resolution:
  assumes "get_config_file fs wfile ns cs = Some w"
  shows "ptr_path (files w) (config_ptr_of (found_config w)) = watch_config_file_path (watch w) \<and>
         (found_config w = None \<longrightarrow> watch_config_file_path (watch w) = None)"
proof -
  from assms obtain existing missing w0 where
    loop: "get_config_file_loop fs (start_directory existing missing)
            \<lparr>found_config = None, did_change = False, watch = wfile, files = ns,
             calls = cs @ [Canonicalize_path (watched_file_path wfile)]\<rparr> = Some w0"
    and w: "w = (case found_config w0 of Some entry \<Rightarrow> w0
                 | None \<Rightarrow> w0\<lparr>did_change := (watch_config_file_path (watch w0) \<noteq> None),
                            watch := (watch w0)\<lparr>watch_config_file_path := None\<rparr>\<rparr>)"
    by (auto simp: get_config_file_def split: canonical_path_result.splits option.splits)
  from loop_result [OF loop] have "found_config w0 = None \<or> (\<exists>p. found_at w0 p)" by auto
  then show ?thesis
  proof
    assume "found_config w0 = None"
    with w show ?thesis by (simp add: config_ptr_of_def ptr_path_def)
  next
    assume "\<exists>p. found_at w0 p"
    then obtain p where p: "found_at w0 p" by blast
    then obtain e where "found_config w0 = Some e" by (auto simp: found_at_def split: option.splits)
    with w p show ?thesis
      by (auto simp: found_at_def config_ptr_of_def ptr_path_def)
  qed
qed

lemma get_config_file_pure:
  assumes "get_config_file fs wfile ns cs = Some w"
  shows "watch_config_file_path (watch w) = detector_resolved fs (watched_file_path wfile)"
proof -
  let ?new = "\<lparr>watched_file_path = watched_file_path wfile, watch_config_file_path = None\<rparr>"
  let ?w1 = "\<lparr>found_config = None, did_change = False, watch = wfile, files = ns,
             calls = cs @ [Canonicalize_path (watched_file_path wfile)]\<rparr>"
  let ?w2 = "\<lparr>found_config = None, did_change = False, watch = ?new, files = [],
             calls = [] @ [Canonicalize_path (watched_file_path ?new)]\<rparr>"
  from assms obtain existing missing w0 where
    canon: "fs_canonicalize_path fs (watched_file_path wfile) = Canonicalized existing missing"
    and loop: "get_config_file_loop fs (start_directory existing missing) ?w1 = Some w0"
    and w: "w = (case found_config w0 of Some entry \<Rightarrow> w0
                 | None \<Rightarrow> w0\<lparr>did_change := (watch_config_file_path (watch w0) \<noteq> None),
                            watch := (watch w0)\<lparr>watch_config_file_path := None\<rparr>\<rparr>)"
    by (auto simp: get_config_file_def split: canonical_path_result.splits option.splits)
  from loop_rel [OF loop, of ?w2] obtain v0 where
    loop2: "get_config_file_loop fs (start_directory existing missing) ?w2 = Some v0"
    and rel: "(found_config w0 = None \<and> found_config v0 = None) \<or>
              (\<exists>p. found_at w0 p \<and> found_at v0 p)" by auto
  from rel show ?thesis
  proof
    assume a: "found_config w0 = None \<and> found_config v0 = None"
    with canon loop2 have "detector_resolved fs (watched_file_path wfile) = None"
      by (simp add: detector_resolved_def get_config_file_def)
    with a w show ?thesis by simp
  next
    assume "\<exists>p. found_at w0 p \<and> found_at v0 p"
    then obtain p where p: "found_at w0 p" "found_at v0 p" by blast
    then obtain e1 e2 where e: "found_config w0 = Some e1" "found_config v0 = Some e2"
      by (auto simp: found_at_def split: option.splits)
    with canon loop2 p have "detector_resolved fs (watched_file_path wfile) = Some p"
      by (simp add: detector_resolved_def get_config_file_def found_at_def)
    with e w p show ?thesis by (simp add: found_at_def)
  qed
qed

lemma get_config_file_res:
  assumes "get_config_file fs wfile ns cs = Some w" and "walk_inv w"
  shows "resolution_ok (files w)
           (detector_resolved fs (watched_file_path wfile), config_ptr_of (found_config w))"
  using get_config_file_resolution [OF assms(1)] get_config_file_pure [OF assms(1)] assms(2)
  by (simp add: resolution_ok_def walk_inv_def)

lemma get_config_for_file_res:
  assumes inv: "detector_inv d" and res: "get_config_for_file fs p d = Some (c, d')"
  shows "detector_res_step d [(detector_resolved fs p, c)] d'"
proof -
  from res obtain w where g: "get_config_file fs \<lparr>watched_file_path = p, watch_config_file_path = None\<rparr>
             (detector_config_files d) (fs_calls d) = Some w"
    and c: "c = config_ptr_of (found_config w)"
    and d': "d' = \<lparr>watches = watches d @ [watch w], detector_config_files = files w,
             fs_calls = calls w\<rparr>"
    by (auto simp: get_config_for_file_def split: option.splits)
  from get_config_for_file_step [OF inv res] have st: "detector_step d [c] d'" .
  from inv have "distinct (keys (detector_config_files d))" "cache_inv (detector_config_files d)"
    by (simp_all add: detector_inv_def)
  moreover have "watch_ok (detector_config_files d) \<lparr>watched_file_path = p, watch_config_file_path = None\<rparr>"
    by (simp add: watch_ok_def)
  ultimately have "walk_inv w" using get_config_file_step [OF _ _ _ g] by simp
  from get_config_file_res [OF g this] c d' st show ?thesis
    by (simp add: detector_res_step_def detector_step_def)
qed

lemma refresh_watches_res:
  assumes "detector_inv d" "list_all (watch_ok (detector_config_files d)) wfiles"
    and "refresh_watches fs wfiles out d = Some (ch, d')"
  shows "\<exists>new. ch = out @ new \<and>
           detector_res_step d
             (map (\<lambda>c. (detector_resolved fs (watched_path c), changed_config c)) new) d'"
  using assms
proof (induction wfiles arbitrary: out d)
  case Nil
  then show ?case by (simp add: detector_res_step_def)
next
  case (Cons wfile wfiles)
  let ?res = "\<lambda>c. (detector_resolved fs (watched_path c), changed_config c)"
  from Cons.prems(3) obtain w where
    g: "get_config_file fs wfile (detector_config_files d) (fs_calls d) = Some w"
    and rest: "refresh_watches fs wfiles
            (if did_change w
             then out @ [\<lparr>watched_path = watched_file_path (watch w),
                            changed_config = config_ptr_of (found_config w)\<rparr>]
             else out)
            \<lparr>watches = watches d @ [watch w], detector_config_files = files w,
             fs_calls = calls w\<rparr> = Some (ch, d')"
    by (auto split: option.splits)
  let ?d1 = "\<lparr>watches = watches d @ [watch w], detector_config_files = files w,
             fs_calls = calls w\<rparr>"
  let ?c1 = "if did_change w
             then [\<lparr>watched_path = watched_file_path (watch w),
                     changed_config = config_ptr_of (found_config w)\<rparr>]
             else []"
  from Cons.prems(1) have d: "distinct (keys (detector_config_files d))"
    and c: "cache_inv (detector_config_files d)"
    and ws: "list_all (watch_ok (detector_config_files d)) (watches d)"
    by (simp_all add: detector_inv_def)
  from Cons.prems(2) have wk: "watch_ok (detector_config_files d) wfile"
    and wks: "list_all (watch_ok (detector_config_files d)) wfiles" by simp_all
  from get_config_file_step [OF d c wk g]
  have w: "walk_inv w" "nodes_kept (detector_config_files d) (files w)"
    "watched_file_path (watch w) = watched_file_path wfile" by simp_all
  have inv1: "detector_inv ?d1"
    using w ws by (auto simp: detector_inv_def walk_inv_def intro: list_all_watch_ok_kept)
  have st1: "detector_res_step d (map ?res ?c1) ?d1"
    using inv1 w get_config_file_res [OF g w(1)] by (simp add: detector_res_step_def)
  have wks1: "list_all (watch_ok (detector_config_files ?d1)) wfiles"
    using wks w(2) by (auto intro: list_all_watch_ok_kept)
  from rest have rest': "refresh_watches fs wfiles (out @ ?c1) ?d1 = Some (ch, d')"
    by (simp split: if_splits)
  from Cons.IH [OF inv1 wks1 rest'] obtain new where new: "ch = (out @ ?c1) @ new"
    "detector_res_step ?d1 (map ?res new) d'" by blast
  have "detector_res_step d (map ?res (?c1 @ new)) d'"
    using detector_res_step_trans [OF st1 new(2)] by simp
  with new(1) show ?case by (intro exI [of _ "?c1 @ new"]) simp
qed

lemma detector_refresh_res:
  assumes "detector_inv d" "detector_refresh fs [] d = Some (ch, d')"
  shows "detector_res_step d
           (map (\<lambda>c. (detector_resolved fs (watched_path c), changed_config c)) ch) d'"
proof -
  from assms(1) have "detector_inv (d\<lparr>watches := []\<rparr>)"
    "list_all (watch_ok (detector_config_files (d\<lparr>watches := []\<rparr>))) (watches d)"
    by (simp_all add: detector_inv_def)
  from refresh_watches_res [OF this] assms(2) show ?thesis
    by (fastforce simp: detector_refresh_def detector_res_step_def)
qed

lemma detector_call_res:
  assumes "detector_inv d" "detector_call_result c d = Some (rs, d')"
  shows "detector_res_step d rs d'"
proof (cases c)
  case (Get_config_for_file fs p)
  with assms(2) obtain x where "get_config_for_file fs p d = Some (x, d')"
    "rs = [(detector_resolved fs p, x)]" by auto
  with get_config_for_file_res [OF assms(1)] show ?thesis by simp
next
  case (Detector_refresh fs)
  with assms(2) obtain ch where "detector_refresh fs [] d = Some (ch, d')"
    "rs = map (\<lambda>c. (detector_resolved fs (watched_path c), changed_config c)) ch" by auto
  with detector_refresh_res [OF assms(1)] show ?thesis by simp
qed

lemma run_detector_res:
  assumes "detector_inv d" "list_all (resolution_ok (detector_config_files d)) rs"
    and "run_detector cs rs d = Some (rs', d')"
  shows "detector_res_step d rs' d'"
  using assms
proof (induction cs arbitrary: rs d)
  case Nil
  then show ?case by (simp add: detector_res_step_def)
next
  case (Cons c cs)
  from Cons.prems(3) obtain new d1 where c: "detector_call_result c d = Some (new, d1)"
    and rest: "run_detector cs (rs @ new) d1 = Some (rs', d')"
    by (auto split: option.splits)
  from detector_call_res [OF Cons.prems(1) c] have st: "detector_res_step d new d1" .
  then have inv1: "detector_inv d1"
    and k: "nodes_kept (detector_config_files d) (detector_config_files d1)"
    and n: "list_all (resolution_ok (detector_config_files d1)) new"
    by (simp_all add: detector_res_step_def)
  from Cons.prems(2) k have "list_all (resolution_ok (detector_config_files d1)) rs"
    by (auto simp: list_all_iff intro: resolution_ok_kept)
  with n have all: "list_all (resolution_ok (detector_config_files d1)) (rs @ new)" by simp
  from Cons.IH [OF inv1 all rest] have "detector_res_step d1 rs' d'" .
  with k show ?case by (auto simp: detector_res_step_def intro: nodes_kept_trans)
qed

lemma find_in_directory_content:
  assumes "find_config_file_in_directory fs s d False names = Some found"
    and "found_path found = Some q"
  shows "found_file_content found =
           (case read_file fs q of Read_ok content \<Rightarrow> content | Read_failed err nf \<Rightarrow> [])"
  using assms
  by (induction names) (auto simp: Let_def split: read_file_result.splits if_splits)

lemma walk_content:
  assumes "found_path (find_config_file_in_directory_and_ancestors fs s d False) = Some q"
  shows "found_file_content (find_config_file_in_directory_and_ancestors fs s d False) =
           (case read_file fs q of Read_ok content \<Rightarrow> content | Read_failed err nf \<Rightarrow> [])"
  using assms
proof (induction fs s d "False" rule: find_config_file_in_directory_and_ancestors.induct)
  case (1 fs s d)
  show ?case
  proof (cases "find_config_file_in_directory fs s d False config_file_names")
    case (Some found)
    with "1.prems" find_in_directory_content [OF Some] show ?thesis by (simp add: walk_found)
  next
    case None
    show ?thesis
    proof (cases "parent d")
      case pNone: None
      with None "1.prems" show ?thesis by (simp add: walk_root)
    next
      case (Some p)
      with None "1.prems" "1.hyps" [OF None Some] show ?thesis by (simp add: walk_up)
    qed
  qed
qed

lemma find_node_snoc_other:
  "find_node k ns = Some i \<Longrightarrow> find_node k (ns @ ms) = Some i"
  by (induction ns arbitrary: i) (auto split: if_splits)

lemma find_node_snoc_None:
  "find_node k ns = None \<Longrightarrow> k \<noteq> q \<Longrightarrow> find_node k (ns @ [(q, v)]) = None"
  by (induction ns) (auto split: if_splits option.splits)


lemma refresh_resolved_walk:
  assumes "canonicalize_path fs ip = Canonicalized existing missing"
  shows "refresh_resolved fs ip =
           found_path (find_config_file_in_directory_and_ancestors fs s
             (start_directory existing missing) False)"
    and "refresh_content fs ip =
           found_file_content (find_config_file_in_directory_and_ancestors fs s
             (start_directory existing missing) False)"
  using assms walk_unchecked [of fs new_configuration_loader "start_directory existing missing" s]
  by (simp_all add: refresh_resolved_def refresh_content_def)

lemma refresh_content_read:
  assumes "refresh_resolved fs ip = Some q"
  shows "refresh_content fs ip =
           (case read_file fs q of Read_ok content \<Rightarrow> content | Read_failed err nf \<Rightarrow> [])"
proof (cases "canonicalize_path fs ip")
  case (Canonicalize_failed err)
  with assms show ?thesis by (simp add: refresh_resolved_def)
next
  case (Canonicalized existing missing)
  with assms walk_content [of fs new_configuration_loader "start_directory existing missing" q]
  show ?thesis by (simp add: refresh_resolved_def refresh_content_def)
qed

text \<open>
  One round of the loader's refresh, in terms of what the path resolves to on the disk.
\<close>

lemma refresh_path_round:
  assumes "refresh_path fs ip s = Some (ch, s')"
  shows "(\<exists>e m. canonicalize_path fs ip = Canonicalized e m) \<and>
         (case refresh_resolved fs ip of
            Some q \<Rightarrow>
              (case find_node q (loaded_config_files s) of
                 Some i \<Rightarrow>
                   find_node q (loaded_config_files s') = Some i \<and>
                   ch = (if refresh_content fs ip \<noteq> file_content (snd (loaded_config_files s ! i))
                         then [\<lparr>watched_path = ip, changed_config = Loaded_config i\<rparr>] else [])
               | None \<Rightarrow>
                   find_node q (loaded_config_files s') = Some (length (loaded_config_files s)) \<and>
                   ch = [\<lparr>watched_path = ip,
                          changed_config = Loaded_config (length (loaded_config_files s))\<rparr>])
          | None \<Rightarrow>
              s' = s \<and>
              ch = (case input_path_config_files s ip of
                      None \<Rightarrow> []
                    | Some old \<Rightarrow> [\<lparr>watched_path = ip, changed_config = Default_config\<rparr>]))"
proof (cases "canonicalize_path fs ip")
  case (Canonicalize_failed err)
  with assms show ?thesis by (simp add: refresh_path_def)
next
  case (Canonicalized existing missing)
  note rw = refresh_resolved_walk [OF Canonicalized, of s]
  show ?thesis
  proof (cases "refresh_resolved fs ip")
    case None
    with assms Canonicalized rw show ?thesis
      by (auto simp: refresh_path_def Let_def split: option.splits)
  next
    case (Some q)
    show ?thesis
    proof (cases "find_node q (loaded_config_files s)")
      case loaded: (Some i)
      with assms Canonicalized Some rw show ?thesis
        by (auto simp: refresh_path_def Let_def get_loaded_config_def split: if_splits)
    next
      case None
      then have "emplace q (loaded_config_files s) =
          (length (loaded_config_files s), True, loaded_config_files s @ [(q, new_loaded_config_file)])"
        by (simp add: emplace_def)
      with assms Canonicalized Some None rw show ?thesis
        by (auto simp: refresh_path_def Let_def get_loaded_config_def find_node_snoc)
    qed
  qed
qed

lemma refresh_path_content:
  assumes "refresh_path fs ip s = Some (ch, s')" and "refresh_resolved fs ip = Some q"
  shows "\<exists>i. find_node q (loaded_config_files s') = Some i \<and>
             file_content (snd (loaded_config_files s' ! i)) = refresh_content fs ip"
proof -
  from refresh_path_round [OF assms(1)] obtain existing missing where
    c: "canonicalize_path fs ip = Canonicalized existing missing" by blast
  from refresh_path_resolves [OF assms(1) c, of new_configuration_loader q] assms(2) c
  show ?thesis by (simp add: refresh_resolved_def refresh_content_def)
qed

lemma refresh_path_keeps_content:
  assumes r: "refresh_path fs ip s = Some (ch, s')"
    and i: "find_node q (loaded_config_files s) = Some i"
    and c: "file_content (snd (loaded_config_files s ! i)) =
              (case read_file fs q of Read_ok content \<Rightarrow> content | Read_failed err nf \<Rightarrow> [])"
  shows "find_node q (loaded_config_files s') = Some i \<and>
         file_content (snd (loaded_config_files s' ! i)) =
           (case read_file fs q of Read_ok content \<Rightarrow> content | Read_failed err nf \<Rightarrow> [])"
proof -
  from refresh_path_round [OF r] obtain existing missing where
    canon: "canonicalize_path fs ip = Canonicalized existing missing" by blast
  note rw = refresh_resolved_walk [OF canon, of s]
  from find_node_Some [OF i] have il: "i < length (loaded_config_files s)"
    and ik: "fst (loaded_config_files s ! i) = q" by simp_all
  let ?latest = "find_config_file_in_directory_and_ancestors fs s (start_directory existing missing) False"
  let ?content = "found_file_content ?latest"
  show ?thesis
  proof (cases "found_path ?latest")
    case None
    with r canon have "s' = s" by (auto simp: refresh_path_def Let_def split: option.splits)
    with i c show ?thesis by simp
  next
    case (Some q')
    let ?f = "\<lambda>e. \<lparr>file_content = ?content,
               config = load_from_json ?content (set_config_file_path q' (reset (config e)))\<rparr>"
    from Some rw have rr: "refresh_resolved fs ip = Some q'" by simp
    show ?thesis
    proof (cases "get_loaded_config s q'")
      case loaded: (Some j)
      then have j: "find_node q' (loaded_config_files s) = Some j"
        by (simp add: get_loaded_config_def)
      from find_node_Some [OF j] have jl: "j < length (loaded_config_files s)"
        and jk: "fst (loaded_config_files s ! j) = q'" by simp_all
      show ?thesis
      proof (cases "?content \<noteq> file_content (snd (loaded_config_files s ! j))")
        case False
        with r canon Some loaded have "s' = s" by (auto simp: refresh_path_def Let_def)
        with i c show ?thesis by simp
      next
        case True
        with r canon Some loaded
        have s': "s' = s\<lparr>loaded_config_files := update_node j ?f (loaded_config_files s)\<rparr>"
          by (auto simp: refresh_path_def Let_def)
        show ?thesis
        proof (cases "j = i")
          case eq: True
          with ik jk have "q' = q" by simp
          with refresh_content_read [OF rr] rw(2) have "?content =
            (case read_file fs q of Read_ok content \<Rightarrow> content | Read_failed err nf \<Rightarrow> [])"
            by simp
          with s' i il eq show ?thesis by (simp add: nth_update_node)
        next
          case False
          with s' i c jl show ?thesis by (simp add: nth_update_node)
        qed
      qed
    next
      case None
      then have n: "find_node q' (loaded_config_files s) = None"
        by (simp add: get_loaded_config_def)
      then have em: "emplace q' (loaded_config_files s) =
          (length (loaded_config_files s), True, loaded_config_files s @ [(q', new_loaded_config_file)])"
        by (simp add: emplace_def)
      with r canon Some None
      have s': "s' = s\<lparr>loaded_config_files :=
          update_node (length (loaded_config_files s)) ?f
            (loaded_config_files s @ [(q', new_loaded_config_file)])\<rparr>"
        by (auto simp: refresh_path_def Let_def)
      from i have "find_node q (loaded_config_files s @ [(q', new_loaded_config_file)]) = Some i"
        by (rule find_node_snoc_other)
      with s' il c show ?thesis by (simp add: nth_update_node nth_append)
    qed
  qed
qed

lemma refresh_paths_content:
  assumes "refresh_paths fs ips changes s = Some (ch, s')"
    and "p \<in> set ips" and "refresh_resolved fs p = Some q"
  shows "\<exists>i. find_node q (loaded_config_files s') = Some i \<and>
             file_content (snd (loaded_config_files s' ! i)) = refresh_content fs p"
  using assms
proof (induction ips arbitrary: ch s' rule: rev_induct)
  case Nil
  then show ?case by simp
next
  case (snoc ip ips)
  from snoc.prems(1) obtain ch1 s1 ch2 where
    r1: "refresh_paths fs ips changes s = Some (ch1, s1)"
    and r2: "refresh_path fs ip s1 = Some (ch2, s')"
    by (auto simp: refresh_paths_append split: option.splits)
  show ?case
  proof (cases "p = ip")
    case True
    with refresh_path_content [OF r2] snoc.prems(3) show ?thesis by simp
  next
    case False
    with snoc.prems(2) have "p \<in> set ips" by simp
    from snoc.IH [OF r1 this snoc.prems(3)] obtain i where
      i: "find_node q (loaded_config_files s1) = Some i"
      "file_content (snd (loaded_config_files s1 ! i)) = refresh_content fs p" by blast
    from refresh_path_keeps_content [OF r2 i(1)] i(2) refresh_content_read [OF snoc.prems(3)]
    show ?thesis by simp
  qed
qed

lemma refresh_path_keeps_unknown:
  assumes "refresh_path fs ip s = Some (ch, s')"
    and "find_node q (loaded_config_files s) = None" and "refresh_resolved fs ip \<noteq> Some q"
  shows "find_node q (loaded_config_files s') = None"
proof -
  from refresh_path_round [OF assms(1)] obtain existing missing where
    canon: "canonicalize_path fs ip = Canonicalized existing missing" by blast
  note rw = refresh_resolved_walk [OF canon, of s]
  show ?thesis
  proof (cases "refresh_resolved fs ip")
    case None
    with refresh_path_round [OF assms(1)] assms(2) show ?thesis by simp
  next
    case (Some q')
    with assms(3) have ne: "q \<noteq> q'" by simp
    show ?thesis
    proof (cases "get_loaded_config s q'")
      case loaded: (Some j)
      with assms(1,2) canon Some rw show ?thesis
        by (auto simp: refresh_path_def Let_def split: if_splits)
    next
      case None
      then have "emplace q' (loaded_config_files s) =
          (length (loaded_config_files s), True, loaded_config_files s @ [(q', new_loaded_config_file)])"
        by (simp add: emplace_def get_loaded_config_def)
      with assms(1,2) canon Some None rw ne show ?thesis
        by (auto simp: refresh_path_def Let_def find_node_snoc_None)
    qed
  qed
qed

lemma refresh_paths_keeps_unknown:
  assumes "refresh_paths fs ips changes s = Some (ch, s')"
    and "find_node q (loaded_config_files s) = None"
    and "\<forall>ip \<in> set ips. refresh_resolved fs ip \<noteq> Some q"
  shows "find_node q (loaded_config_files s') = None"
  using assms
proof (induction ips arbitrary: changes s)
  case Nil
  then show ?case by simp
next
  case (Cons ip ips)
  from Cons.prems(1) obtain c1 s1 where r1: "refresh_path fs ip s = Some (c1, s1)"
    and r2: "refresh_paths fs ips (changes @ c1) s1 = Some (ch, s')"
    by (auto split: option.splits)
  from refresh_path_keeps_unknown [OF r1 Cons.prems(2)] Cons.prems(3)
  have "find_node q (loaded_config_files s1) = None" by simp
  from Cons.IH [OF r2 this] Cons.prems(3) show ?case by simp
qed

text \<open>Registered paths stay registered.\<close>

lemma loader_call_watched_paths:
  assumes "loader_call_result c s = Some (rs, s')"
  shows "set (watched_paths s) \<subseteq> set (watched_paths s')"
proof (cases c)
  case (Load_for_file fs p)
  with assms obtain r where "load_for_file fs p s = Some (r, s')" by auto
  then have "watched_paths s' = watched_paths s @ [p]"
    by (auto simp: load_for_file_def dest: find_and_load_for_input_keeps_watched_paths)
  then show ?thesis by auto
next
  case (Load_for_file_to_lint fs f)
  with assms obtain r where "load_for_file_to_lint fs f s = Some (r, s')" by auto
  from load_for_file_to_lint_keeps_watched_paths [OF this] show ?thesis by simp
next
  case (Refresh fs)
  with assms obtain ch where "refresh fs s = Some (ch, s')" by auto
  from refresh_watched [OF this] show ?thesis by simp
qed

lemma run_loader_watched_paths:
  assumes "run_loader cs rs s = Some (rs', s')"
  shows "set (watched_paths s) \<subseteq> set (watched_paths s')"
  using assms
proof (induction cs arbitrary: rs s)
  case Nil
  then show ?case by simp
next
  case (Cons c cs)
  from Cons.prems obtain new s1 where c: "loader_call_result c s = Some (new, s1)"
    and r: "run_loader cs (rs @ new) s1 = Some (rs', s')"
    by (auto split: option.splits)
  from loader_call_watched_paths [OF c] Cons.IH [OF r] show ?case by blast
qed

text \<open>A run keeps the resolutions collected before it.\<close>

lemma run_loader_extends:
  "run_loader cs rs s = Some (rs', s') \<Longrightarrow> prefix rs rs'"
proof (induction cs arbitrary: rs s)
  case Nil
  then show ?case by simp
next
  case (Cons c cs)
  from Cons.prems obtain new s1 where "run_loader cs (rs @ new) s1 = Some (rs', s')"
    by (auto split: option.splits)
  from Cons.IH [OF this] show ?case by (rule append_prefixD)
qed

lemma run_detector_extends:
  "run_detector cs rs d = Some (rs', d') \<Longrightarrow> prefix rs rs'"
proof (induction cs arbitrary: rs d)
  case Nil
  then show ?case by simp
next
  case (Cons c cs)
  from Cons.prems obtain new d1 where "run_detector cs (rs @ new) d1 = Some (rs', d')"
    by (auto split: option.splits)
  from Cons.IH [OF this] show ?case by (rule append_prefixD)
qed

lemma resolutions_agree:
  assumes "distinct (keys ns)" "list_all (resolution_ok ns) rs"
  shows "\<forall>r1 \<in> set rs. \<forall>r2 \<in> set rs. fst r1 = fst r2 \<longrightarrow> snd r1 = snd r2"
proof (intro ballI impI)
  fix r1 r2
  assume "r1 \<in> set rs" "r2 \<in> set rs" "fst r1 = fst r2"
  with assms(2) have "ptr_ok ns (snd r1)" "ptr_ok ns (snd r2)"
    "ptr_path ns (snd r1) = ptr_path ns (snd r2)"
    by (auto simp: list_all_iff resolution_ok_def)
  then show "snd r1 = snd r2" by (rule ptr_path_inj [OF assms(1)])
qed

section \<open>The watch engines and the example scenarios\<close>

lemmas eval_defs = c_str_def load_for_file_def find_and_load_config_file_for_input_def
  find_and_load_config_file_in_directory_and_ancestors_def
  find_config_file_in_directory_and_ancestors.simps start_directory_def parent_def
  append_component_def config_file_names_def get_loaded_config_def
  new_configuration_loader_def loader_fs_def example_canonicalize_def
  disk_without_config_def disk_with_config_def a_registered_def
  refresh_def refresh_path_def emplace_def update_node_def load_into_node_def
  unreachable_loader_fs_def unreachable_canonicalize_def Let_def

lemma inotify_enter_directory_idempotent:
  "inotify_enter_directory watch_descriptor s = Some s1 \<Longrightarrow>
   inotify_enter_directory watch_descriptor s1 = Some s1"
  by (auto simp: inotify_enter_directory_def inotify_watch_directory_def split: if_splits)

lemma kqueue_enter_directory_grows:
  "kqueue_enter_directory directory_fd kqueue_rc s = Some s1 \<Longrightarrow>
   length (watched_directories s1) = Suc (length (watched_directories s))"
  by (auto simp: kqueue_enter_directory_def kqueue_watch_directory_def split: if_splits)

lemma detector_refresh_reports_both_sources:
  "(case get_config_for_file (detector_fs disk_without_config) ''/t/a.js''
           new_configuration_change_detector of
      None \<Rightarrow> None
    | Some (c1, d1) \<Rightarrow>
        (case get_config_for_file (detector_fs disk_without_config) ''/t/b.js'' d1 of
           None \<Rightarrow> None
         | Some (c2, d2) \<Rightarrow>
             map_option fst (detector_refresh (detector_fs (disk_with_config ''{}'')) [] d2))) =
   Some [\<lparr>watched_path = ''/t/a.js'', changed_config = Loaded_config 0\<rparr>,
         \<lparr>watched_path = ''/t/b.js'', changed_config = Loaded_config 0\<rparr>]"
  by code_simp

lemma detector_refresh_reports_deletion_once:
  "(case get_config_for_file (detector_fs (disk_with_config ''{}'')) ''/t/a.js''
           new_configuration_change_detector of
      None \<Rightarrow> None
    | Some (c1, d1) \<Rightarrow>
        (case detector_refresh (detector_fs disk_without_config) [] d1 of
           None \<Rightarrow> None
         | Some (changes1, d2) \<Rightarrow>
             map_option (\<lambda>(changes2, d3). (changes1, changes2))
               (detector_refresh (detector_fs disk_without_config) [] d2))) =
   Some ([\<lparr>watched_path = ''/t/a.js'', changed_config = Default_config\<rparr>], [])"
  by code_simp

section \<open>The claims\<close>

text \<open>
  C1. Pointer stability of interned configurations. Take any run of host calls on a new
  loader (\<open>load_for_file\<close> in both overloads, \<open>refresh\<close>) and on a new detector
  (\<open>get_config_for_file\<close>, \<open>refresh\<close>), split at any point into two parts. Each call
  contributes its resolutions: the canonical config path the call resolved to (for
  \<open>refresh\<close>, what each reported source resolved to) with the configuration pointer it
  returned. Then every node the cache held after the first part is still at its
  address with its key after the second part (\<open>nodes_kept\<close>); every pointer returned
  by any call of the run addresses a configuration of the cache, and the config file it
  stands for is the one the call resolved to (\<open>resolution_ok\<close>); and any two calls of
  the run that resolved to the same canonical config path returned the same pointer.
\<close>

theorem pointer_stability:
  assumes "run_loader cs1 [] new_configuration_loader = Some (rs1, s1)"
    and "run_loader cs2 rs1 s1 = Some (rs2, s2)"
    and "run_detector ds1 [] new_configuration_change_detector = Some (drs1, d1)"
    and "run_detector ds2 drs1 d1 = Some (drs2, d2)"
  shows "nodes_kept (loaded_config_files s1) (loaded_config_files s2) \<and>
         prefix rs1 rs2 \<and>
         list_all (resolution_ok (loaded_config_files s2)) rs2 \<and>
         (\<forall>r1 \<in> set rs2. \<forall>r2 \<in> set rs2. fst r1 = fst r2 \<longrightarrow> snd r1 = snd r2) \<and>
         nodes_kept (detector_config_files d1) (detector_config_files d2) \<and>
         prefix drs1 drs2 \<and>
         list_all (resolution_ok (detector_config_files d2)) drs2 \<and>
         (\<forall>r1 \<in> set drs2. \<forall>r2 \<in> set drs2. fst r1 = fst r2 \<longrightarrow> snd r1 = snd r2)"
proof -
  have st1: "loader_res_step new_configuration_loader rs1 s1"
    by (rule run_loader_res [OF new_loader_inv _ assms(1)]) simp
  then have "loader_inv s1" "list_all (resolution_ok (loaded_config_files s1)) rs1"
    by (simp_all add: loader_res_step_def)
  from run_loader_res [OF this assms(2)]
  have st2: "loader_res_step s1 rs2 s2" .
  have dst1: "detector_res_step new_configuration_change_detector drs1 d1"
    by (rule run_detector_res [OF new_detector_inv _ assms(3)]) simp
  then have "detector_inv d1" "list_all (resolution_ok (detector_config_files d1)) drs1"
    by (simp_all add: detector_res_step_def)
  from run_detector_res [OF this assms(4)]
  have dst2: "detector_res_step d1 drs2 d2" .
  from st2 have a: "\<forall>r1 \<in> set rs2. \<forall>r2 \<in> set rs2. fst r1 = fst r2 \<longrightarrow> snd r1 = snd r2"
    by (intro resolutions_agree [of "loaded_config_files s2"])
       (simp_all add: loader_res_step_def loader_inv_def)
  from dst2 have b: "\<forall>r1 \<in> set drs2. \<forall>r2 \<in> set drs2. fst r1 = fst r2 \<longrightarrow> snd r1 = snd r2"
    by (intro resolutions_agree [of "detector_config_files d2"])
       (simp_all add: detector_res_step_def detector_inv_def)
  from st2 have c: "nodes_kept (loaded_config_files s1) (loaded_config_files s2)"
    "list_all (resolution_ok (loaded_config_files s2)) rs2"
    by (simp_all add: loader_res_step_def)
  from dst2 have d: "nodes_kept (detector_config_files d1) (detector_config_files d2)"
    "list_all (resolution_ok (detector_config_files d2)) drs2"
    by (simp_all add: detector_res_step_def)
  from a b c d run_loader_extends [OF assms(2)] run_detector_extends [OF assms(4)]
  show ?thesis by blast
qed

theorem pointer_stability_witness:
  "\<exists>rs1 s1 rs2 s2 drs1 d1 drs2 d2.
     run_loader nested_loader_calls [] new_configuration_loader = Some (rs1, s1) \<and>
     run_loader nested_loader_calls_later rs1 s1 = Some (rs2, s2) \<and>
     run_detector nested_detector_calls [] new_configuration_change_detector = Some (drs1, d1) \<and>
     run_detector nested_detector_calls_later drs1 d1 = Some (drs2, d2) \<and>
     keys (loaded_config_files s1) =
       [[''t'', ''quick-lint-js.config''], [''t'', ''dir'', ''quick-lint-js.config'']] \<and>
     rs2 = [(Some [''t'', ''quick-lint-js.config''], Loaded_config 0),
            (Some [''t'', ''dir'', ''quick-lint-js.config''], Loaded_config 1),
            (Some [''t'', ''quick-lint-js.config''], Loaded_config 0),
            (Some [''t'', ''quick-lint-js.config''], Loaded_config 0)] \<and>
     keys (detector_config_files d1) =
       [[''t'', ''quick-lint-js.config''], [''t'', ''dir'', ''quick-lint-js.config'']] \<and>
     drs2 = [(Some [''t'', ''quick-lint-js.config''], Loaded_config 0),
             (Some [''t'', ''dir'', ''quick-lint-js.config''], Loaded_config 1),
             (Some [''t'', ''quick-lint-js.config''], Loaded_config 0),
             (Some [''t'', ''quick-lint-js.config''], Loaded_config 0)] \<and>
     nodes_kept (loaded_config_files s1) (loaded_config_files s2) \<and>
     list_all (resolution_ok (loaded_config_files s2)) rs2 \<and>
     nodes_kept (detector_config_files d1) (detector_config_files d2) \<and>
     list_all (resolution_ok (detector_config_files d2)) drs2"
proof -
  have "(case run_loader nested_loader_calls [] new_configuration_loader of
           None \<Rightarrow> None
         | Some (rs1, s1) \<Rightarrow>
             (case run_loader nested_loader_calls_later rs1 s1 of
                None \<Rightarrow> None
              | Some (rs2, s2) \<Rightarrow> Some (keys (loaded_config_files s1), rs2))) =
        Some ([[''t'', ''quick-lint-js.config''], [''t'', ''dir'', ''quick-lint-js.config'']],
              [(Some [''t'', ''quick-lint-js.config''], Loaded_config 0),
               (Some [''t'', ''dir'', ''quick-lint-js.config''], Loaded_config 1),
               (Some [''t'', ''quick-lint-js.config''], Loaded_config 0),
               (Some [''t'', ''quick-lint-js.config''], Loaded_config 0)])"
    by code_simp
  then obtain rs1 s1 rs2 s2 where
    l1: "run_loader nested_loader_calls [] new_configuration_loader = Some (rs1, s1)"
    and l2: "run_loader nested_loader_calls_later rs1 s1 = Some (rs2, s2)"
    and k: "keys (loaded_config_files s1) =
       [[''t'', ''quick-lint-js.config''], [''t'', ''dir'', ''quick-lint-js.config'']]"
    and r: "rs2 = [(Some [''t'', ''quick-lint-js.config''], Loaded_config 0),
            (Some [''t'', ''dir'', ''quick-lint-js.config''], Loaded_config 1),
            (Some [''t'', ''quick-lint-js.config''], Loaded_config 0),
            (Some [''t'', ''quick-lint-js.config''], Loaded_config 0)]"
    by (auto split: option.splits)
  have "(case run_detector nested_detector_calls [] new_configuration_change_detector of
           None \<Rightarrow> None
         | Some (drs1, d1) \<Rightarrow>
             (case run_detector nested_detector_calls_later drs1 d1 of
                None \<Rightarrow> None
              | Some (drs2, d2) \<Rightarrow> Some (keys (detector_config_files d1), drs2))) =
        Some ([[''t'', ''quick-lint-js.config''], [''t'', ''dir'', ''quick-lint-js.config'']],
              [(Some [''t'', ''quick-lint-js.config''], Loaded_config 0),
               (Some [''t'', ''dir'', ''quick-lint-js.config''], Loaded_config 1),
               (Some [''t'', ''quick-lint-js.config''], Loaded_config 0),
               (Some [''t'', ''quick-lint-js.config''], Loaded_config 0)])"
    by code_simp
  then obtain drs1 d1 drs2 d2 where
    d1: "run_detector nested_detector_calls [] new_configuration_change_detector = Some (drs1, d1)"
    and d2: "run_detector nested_detector_calls_later drs1 d1 = Some (drs2, d2)"
    and dk: "keys (detector_config_files d1) =
       [[''t'', ''quick-lint-js.config''], [''t'', ''dir'', ''quick-lint-js.config'']]"
    and dr: "drs2 = [(Some [''t'', ''quick-lint-js.config''], Loaded_config 0),
             (Some [''t'', ''dir'', ''quick-lint-js.config''], Loaded_config 1),
             (Some [''t'', ''quick-lint-js.config''], Loaded_config 0),
             (Some [''t'', ''quick-lint-js.config''], Loaded_config 0)]"
    by (auto split: option.splits)
  from pointer_stability [OF l1 l2 d1 d2]
  have "nodes_kept (loaded_config_files s1) (loaded_config_files s2)"
    "list_all (resolution_ok (loaded_config_files s2)) rs2"
    "nodes_kept (detector_config_files d1) (detector_config_files d2)"
    "list_all (resolution_ok (detector_config_files d2)) drs2"
    by blast+
  with l1 l2 d1 d2 k r dk dr show ?thesis by blast
qed

text \<open>
  C7. The invariant of loaded config files. After every run of host calls
  (\<open>load_for_file\<close> in both overloads and \<open>refresh\<close> on a new loader;
  \<open>get_config_for_file\<close> and \<open>refresh\<close> on a new detector), every entry of the cache
  satisfies \<open>entry_ok\<close>: the path recorded in its configuration is the key of the
  entry, and what the configuration has loaded since its last reset is exactly the
  stored file content.
\<close>

theorem loaded_config_file_invariant:
  assumes "run_loader cs [] new_configuration_loader = Some (ptrs, s)"
    and "run_detector ds [] new_configuration_change_detector = Some (dptrs, d)"
  shows "cache_inv (loaded_config_files s) \<and> cache_inv (detector_config_files d)"
proof -
  have "loader_res_step new_configuration_loader ptrs s"
    by (rule run_loader_res [OF new_loader_inv _ assms(1)]) simp
  moreover have "detector_res_step new_configuration_change_detector dptrs d"
    by (rule run_detector_res [OF new_detector_inv _ assms(2)]) simp
  ultimately show ?thesis
    by (simp add: loader_res_step_def detector_res_step_def loader_inv_def detector_inv_def)
qed

theorem loaded_config_file_invariant_witness:
  "\<exists>ptrs s dptrs d.
     run_loader example_loader_calls [] new_configuration_loader = Some (ptrs, s) \<and>
     run_detector example_detector_calls [] new_configuration_change_detector = Some (dptrs, d) \<and>
     keys (loaded_config_files s) = [[''t'', ''quick-lint-js.config'']] \<and>
     cache_inv (loaded_config_files s) \<and> cache_inv (detector_config_files d)"
proof -
  have "map_option (\<lambda>(ptrs, s). keys (loaded_config_files s))
     (run_loader example_loader_calls [] new_configuration_loader) =
   Some [[''t'', ''quick-lint-js.config'']]"
    by code_simp
  then obtain ptrs s where l: "run_loader example_loader_calls [] new_configuration_loader = Some (ptrs, s)"
    and k: "keys (loaded_config_files s) = [[''t'', ''quick-lint-js.config'']]"
    by auto
  have "(case run_detector example_detector_calls [] new_configuration_change_detector of
           None \<Rightarrow> False | Some r \<Rightarrow> True)"
    by code_simp
  then obtain dptrs d where
    d: "run_detector example_detector_calls [] new_configuration_change_detector = Some (dptrs, d)"
    by (auto split: option.splits)
  from loaded_config_file_invariant [OF l d] l d k show ?thesis by blast
qed




text \<open>
  C3. Nearer shadows farther. Let configs be present in two ancestor directories of
  the source, \<open>D1\<close> and the farther \<open>D2\<close> (a proper ancestor of \<open>D1\<close>), with no
  config in the directories nearer than \<open>D1\<close>, and let \<open>name1\<close> be the first config
  name readable in \<open>D1\<close>. Then \<open>get_config_file\<close> returns the entry of \<open>name1\<close> in
  \<open>D1\<close>, not the config of \<open>D2\<close>, and the calls it makes on the filesystem end with
  the read of that file followed by one \<open>enter_directory\<close> for each proper ancestor of
  \<open>D1\<close>, nearest first: after the hit no file is read.
\<close>

theorem nearer_shadows_farther:
  assumes "fs_canonicalize_path fs (watched_file_path wfile) = Canonicalized existing missing"
    and "prefix D1 (start_directory existing missing)"
    and "strict_prefix D2 D1"
    and "name2 \<in> set config_file_names"
    and "fs_read_file fs D2 name2 = Read_ok content2"
    and "\<forall>d name. strict_prefix D1 d \<and> prefix d (start_directory existing missing) \<and>
           name \<in> set config_file_names \<longrightarrow>
           (\<exists>err. fs_read_file fs d name = Read_failed err True)"
    and "config_file_names = before_names @ name1 # after_names"
    and "\<forall>n \<in> set before_names. \<exists>err. fs_read_file fs D1 n = Read_failed err True"
    and "fs_read_file fs D1 name1 = Read_ok content1"
  shows "\<exists>w before. get_config_file fs wfile ns cs = Some w \<and>
           found_at w (append_component D1 name1) \<and>
           \<not> found_at w (append_component D2 name2) \<and>
           calls w = cs @ [Canonicalize_path (watched_file_path wfile)] @ before @
                     [Read_file D1 name1] @ map Enter_directory (tl (rev (prefixes D1)))"
proof -
  from get_config_file_nearest [OF assms(1) assms(2) assms(6) assms(7) assms(8) assms(9), of ns cs]
  obtain w before where w: "get_config_file fs wfile ns cs = Some w"
    "found_at w (append_component D1 name1)"
    "calls w = cs @ [Canonicalize_path (watched_file_path wfile)] @ before @
                     [Read_file D1 name1] @ map Enter_directory (tl (rev (prefixes D1)))"
    by blast
  from assms(3) have "D1 \<noteq> D2" by (auto simp: strict_prefix_def)
  with w(2) have "\<not> found_at w (append_component D2 name2)"
    by (auto simp: found_at_def append_component_def)
  with w show ?thesis by blast
qed

theorem nearer_shadows_farther_witness:
  "\<exists>w before. get_config_file (detector_fs disk_with_both)
          \<lparr>watched_file_path = ''/t/dir/hello.js'', watch_config_file_path = None\<rparr> [] [] = Some w \<and>
        found_at w [''t'', ''quick-lint-js.config''] \<and>
        \<not> found_at w [''quick-lint-js.config''] \<and>
        calls w = [Canonicalize_path ''/t/dir/hello.js''] @ before @
                  [Read_file [''t''] ''quick-lint-js.config'', Enter_directory []]"
proof -
  have near: "\<And>d. strict_prefix [''t''] d \<and> prefix d [''t'', ''dir''] \<longleftrightarrow> d = [''t'', ''dir'']"
    by (auto simp: strict_prefix_def prefix_def append_eq_Cons_conv Cons_eq_append_conv)
  have sd: "start_directory [''t'', ''dir'', ''hello.js''] [] = [''t'', ''dir'']"
    by (simp add: start_directory_def parent_def)
  have 1: "fs_canonicalize_path (detector_fs disk_with_both)
             (watched_file_path \<lparr>watched_file_path = ''/t/dir/hello.js'', watch_config_file_path = None\<rparr>) =
           Canonicalized [''t'', ''dir'', ''hello.js''] []"
    by (simp add: detector_fs_def example_canonicalize_def)
  have 2: "prefix [''t''] (start_directory [''t'', ''dir'', ''hello.js''] [])"
    by (simp add: sd)
  have 3: "strict_prefix [] [''t'']" by simp
  have 4: "''quick-lint-js.config'' \<in> set config_file_names"
    by (simp add: config_file_names_def)
  have 5: "fs_read_file (detector_fs disk_with_both) [] ''quick-lint-js.config'' = Read_ok ''{outer: true}''"
    by (simp add: detector_fs_def disk_with_both_def append_component_def)
  have 6: "\<forall>d name. strict_prefix [''t''] d \<and>
             prefix d (start_directory [''t'', ''dir'', ''hello.js''] []) \<and>
             name \<in> set config_file_names \<longrightarrow>
           (\<exists>err. fs_read_file (detector_fs disk_with_both) d name = Read_failed err True)"
    by (auto simp: sd near detector_fs_def disk_with_both_def append_component_def config_file_names_def)
  have 7: "config_file_names = [] @ ''quick-lint-js.config'' # [''.quick-lint-js.config'']"
    by (simp add: config_file_names_def)
  have 8: "\<forall>n \<in> set []. \<exists>err. fs_read_file (detector_fs disk_with_both) [''t''] n = Read_failed err True"
    by simp
  have 9: "fs_read_file (detector_fs disk_with_both) [''t''] ''quick-lint-js.config'' = Read_ok ''{}''"
    by (simp add: detector_fs_def disk_with_both_def append_component_def)
  from nearer_shadows_farther [OF 1 2 3 4 5 6 7 8 9, of "[]" "[]"]
  show ?thesis by (simp add: append_component_def)
qed

text \<open>
  C4. The change condition of \<open>refresh\<close> for a resolved config, on the loader. Two
  sources of one directory are registered while no config exists; then
  \<open>/t/quick-lint-js.config\<close> is created. For both sources the resolved path differs
  from what was recorded (nothing), but the loader's \<open>refresh\<close> reports a change for
  the first source only: for the second the entry is already loaded with the same
  bytes. (The detector reports both: \<open>detector_refresh_reports_both_sources\<close>.)
\<close>

theorem loader_refresh_misses_second_source:
  "load_for_file (loader_fs disk_without_config) ''/t/a.js'' new_configuration_loader =
     Some (Config_ok Default_config, a_registered) \<and>
   load_for_file (loader_fs disk_without_config) ''/t/b.js'' a_registered =
     Some (Config_ok Default_config, two_sources_registered) \<and>
   map_option fst (refresh (loader_fs (disk_with_config ''{}'')) two_sources_registered) =
     Some [\<lparr>watched_path = ''/t/a.js'', changed_config = Loaded_config 0\<rparr>]"
  by (simp add: eval_defs two_sources_registered_def)

text \<open>
  C5. The change condition of \<open>refresh\<close> when no config applies, on the loader. A
  source is loaded with a config; the config is deleted. The loader's \<open>refresh\<close>
  reports the change to the default configuration and leaves the loader as it was:
  the recorded path in \<open>input_path_config_files\<close> is not cleared, so the next
  \<open>refresh\<close> on the unchanged disk reports the same change again. (The detector
  reports it once: \<open>detector_refresh_reports_deletion_once\<close>.)
\<close>

theorem loader_refresh_repeats_deletion:
  "load_for_file (loader_fs (disk_with_config ''{}'')) ''/t/a.js'' new_configuration_loader =
     Some (Config_ok (Loaded_config 0), a_config_loaded) \<and>
   refresh (loader_fs disk_without_config) a_config_loaded =
     Some ([\<lparr>watched_path = ''/t/a.js'', changed_config = Default_config\<rparr>], a_config_loaded)"
  by (simp add: eval_defs a_config_loaded_def new_loaded_config_file_def default_configuration_def
      load_from_json_def set_config_file_path_def)

text \<open>
  C6, as amended. A refresh pass returns a change list only when canonicalization
  succeeds for every registered source: the loader's \<open>refresh\<close> returns exactly then,
  and in the detector a canonicalization failure of any watched file aborts the pass.
\<close>

theorem refresh_returns_iff_canonicalized:
  "(refresh fs s \<noteq> None \<longleftrightarrow>
      (\<forall>p \<in> set (watched_paths s). \<exists>e m. canonicalize_path fs p = Canonicalized e m)) \<and>
   ((\<exists>wfile \<in> set (watches d). \<exists>err.
        fs_canonicalize_path dfs (watched_file_path wfile) = Canonicalize_failed err) \<longrightarrow>
      detector_refresh dfs out d = None)"
  using refresh_returns [of fs s] refresh_watches_aborts [of "watches d" dfs out "d\<lparr>watches := []\<rparr>"]
  by (simp add: detector_refresh_def)

theorem refresh_returns_iff_canonicalized_witness:
  "refresh (loader_fs (disk_with_config ''{}'')) a_registered \<noteq> None \<and>
   refresh unreachable_loader_fs a_registered = None \<and>
   detector_refresh unreachable_detector_fs [] a_watched = None"
proof -
  have 1: "\<forall>p \<in> set (watched_paths a_registered).
             \<exists>e m. canonicalize_path (loader_fs (disk_with_config ''{}'')) p = Canonicalized e m"
    by (simp add: a_registered_def loader_fs_def example_canonicalize_def)
  have 2: "\<not> (\<forall>p \<in> set (watched_paths a_registered).
             \<exists>e m. canonicalize_path unreachable_loader_fs p = Canonicalized e m)"
    by (simp add: a_registered_def unreachable_loader_fs_def unreachable_canonicalize_def)
  have 3: "\<exists>wfile \<in> set (watches a_watched). \<exists>err.
        fs_canonicalize_path unreachable_detector_fs (watched_file_path wfile) = Canonicalize_failed err"
    by (simp add: a_watched_def unreachable_detector_fs_def unreachable_canonicalize_def)
  from refresh_returns_iff_canonicalized [of "loader_fs (disk_with_config ''{}'')" a_registered
      a_watched unreachable_detector_fs "[]"]
    refresh_returns_iff_canonicalized [of unreachable_loader_fs a_registered
      a_watched unreachable_detector_fs "[]"] 1 2 3
  show ?thesis by blast
qed

text \<open>
  C6 as stated fails: a source is registered while its path can be canonicalized;
  when canonicalization then fails, \<open>refresh\<close> aborts (\<open>QLJS_UNIMPLEMENTED\<close>) in the
  loader and in the detector, and no change list is returned.
\<close>

theorem refresh_aborts_counterexample:
  "load_for_file (loader_fs disk_without_config) ''/t/a.js'' new_configuration_loader =
     Some (Config_ok Default_config, a_registered) \<and>
   refresh unreachable_loader_fs a_registered = None \<and>
   get_config_for_file (detector_fs disk_without_config) ''/t/a.js'' new_configuration_change_detector =
     Some (Default_config, a_watched) \<and>
   detector_refresh unreachable_detector_fs [] a_watched = None"
  by (simp add: eval_defs get_config_for_file_def get_config_file_def get_config_file_loop.simps
      detector_fs_def new_configuration_change_detector_def a_watched_def config_ptr_of_def
      detector_refresh_def unreachable_detector_fs_def)

text \<open>
  C8. \<open>enter_directory\<close> on the kqueue engine: a second call for a directory opens
  and stores one more descriptor, so the state after the second call differs from the
  state after the first (the inotify engine keeps its state:
  \<open>inotify_enter_directory_idempotent\<close>).
\<close>

theorem kqueue_enter_directory_accumulates:
  "kqueue_enter_directory 3 0 \<lparr>watched_directories = []\<rparr> = Some \<lparr>watched_directories = [3]\<rparr> \<and>
   kqueue_enter_directory 4 0 \<lparr>watched_directories = [3]\<rparr> = Some \<lparr>watched_directories = [3, 4]\<rparr> \<and>
   inotify_enter_directory 1 \<lparr>watch_descriptors = []\<rparr> = Some \<lparr>watch_descriptors = [1]\<rparr> \<and>
   inotify_enter_directory 1 \<lparr>watch_descriptors = [1]\<rparr> = Some \<lparr>watch_descriptors = [1]\<rparr>"
  by (simp add: kqueue_enter_directory_def kqueue_watch_directory_def
      inotify_enter_directory_def inotify_watch_directory_def)

text \<open>
  C9. The overload of \<open>load_for_file\<close> taking a \<open>file_to_lint\<close> leaves
  \<open>watched_paths\<close> as it is. For a file with a path and no explicit config it returns
  what the string overload returns and changes the loader in the same way, except
  that the string overload appends the path to \<open>watched_paths\<close>. A path that is not in
  \<open>watched_paths\<close> gets no change from a following \<open>refresh\<close>, which keeps
  \<open>watched_paths\<close>.
\<close>

theorem structured_overload_not_watched:
  assumes "load_for_file_to_lint fs f s = Some (r, s1)"
  shows "watched_paths s1 = watched_paths s \<and>
         (\<forall>p. path f = Some p \<and> config_file f = None \<longrightarrow>
            load_for_file fs p s = Some (r, s1\<lparr>watched_paths := watched_paths s @ [p]\<rparr>)) \<and>
         (\<forall>p (fs2::loader_filesystem) changes s2. p \<notin> set (watched_paths s) \<and> refresh fs2 s1 = Some (changes, s2) \<longrightarrow>
            p \<notin> watched_path ` set changes \<and> watched_paths s2 = watched_paths s1)"
proof -
  have a: "watched_paths s1 = watched_paths s"
    by (rule load_for_file_to_lint_keeps_watched_paths [OF assms])
  have b: "\<forall>p. path f = Some p \<and> config_file f = None \<longrightarrow>
            load_for_file fs p s = Some (r, s1\<lparr>watched_paths := watched_paths s @ [p]\<rparr>)"
    using assms
    by (auto simp: load_for_file_def load_for_file_to_lint_def find_and_load_for_input_watched_paths)
  have c: "\<forall>p (fs2::loader_filesystem) changes s2. p \<notin> set (watched_paths s) \<and> refresh fs2 s1 = Some (changes, s2) \<longrightarrow>
            p \<notin> watched_path ` set changes \<and> watched_paths s2 = watched_paths s1"
  proof (intro allI impI)
    fix p and fs2 :: loader_filesystem and changes s2
    assume h: "p \<notin> set (watched_paths s) \<and> refresh fs2 s1 = Some (changes, s2)"
    with refresh_watched [of fs2 s1 changes s2] a
    show "p \<notin> watched_path ` set changes \<and> watched_paths s2 = watched_paths s1"
      by (auto simp: list_all_iff)
  qed
  from a b c show ?thesis by blast
qed

theorem structured_overload_not_watched_witness:
  "load_for_file_to_lint (loader_fs (disk_with_config ''{}''))
       \<lparr>path = Some ''/t/b.js'', config_file = None\<rparr> new_configuration_loader =
     Some (Config_ok (Loaded_config 0), config_loaded_unwatched) \<and>
   watched_paths config_loaded_unwatched = [] \<and>
   load_for_file (loader_fs (disk_with_config ''{}'')) ''/t/b.js'' new_configuration_loader =
     Some (Config_ok (Loaded_config 0), config_loaded_unwatched\<lparr>watched_paths := [''/t/b.js'']\<rparr>) \<and>
   refresh (loader_fs (disk_with_config ''{globals: {}}'')) config_loaded_unwatched =
     Some ([], config_loaded_unwatched)"
proof -
  have 1: "load_for_file_to_lint (loader_fs (disk_with_config ''{}''))
       \<lparr>path = Some ''/t/b.js'', config_file = None\<rparr> new_configuration_loader =
     Some (Config_ok (Loaded_config 0), config_loaded_unwatched)"
    by (simp add: load_for_file_to_lint_def eval_defs config_loaded_unwatched_def
        new_loaded_config_file_def default_configuration_def load_from_json_def
        set_config_file_path_def)
  have 2: "refresh (loader_fs (disk_with_config ''{globals: {}}'')) config_loaded_unwatched =
     Some ([], config_loaded_unwatched)"
    by (simp add: refresh_def config_loaded_unwatched_def)
  from structured_overload_not_watched [OF 1]
  have "load_for_file (loader_fs (disk_with_config ''{}'')) ''/t/b.js'' new_configuration_loader =
     Some (Config_ok (Loaded_config 0),
       config_loaded_unwatched\<lparr>watched_paths := watched_paths new_configuration_loader @ [''/t/b.js'']\<rparr>)"
    by simp
  then have 3: "load_for_file (loader_fs (disk_with_config ''{}'')) ''/t/b.js'' new_configuration_loader =
     Some (Config_ok (Loaded_config 0), config_loaded_unwatched\<lparr>watched_paths := [''/t/b.js'']\<rparr>)"
    by (simp add: new_configuration_loader_def)
  have 4: "watched_paths config_loaded_unwatched = []"
    by (simp add: config_loaded_unwatched_def)
  from 1 2 3 4 show ?thesis by simp
qed

text \<open>
  C10. The string overload of \<open>load_for_file\<close> appends the path to \<open>watched_paths\<close>
  whatever the result. When the result is an error nothing else of the loader changes,
  and the registration stays: every following \<open>refresh\<close> that returns keeps
  \<open>watched_paths\<close> and has canonicalized the path again, and a \<open>refresh\<close> on a disk
  where the path cannot be canonicalized aborts. Every later \<open>refresh\<close>, after any
  run of host calls, resolves the path again: if it returns, the path is still
  registered, it was canonicalized, and when the walk from it finds a config file the
  cache holds that file with the bytes just read. In the \<open>refresh\<close> that follows the
  load, a path that resolves to a config file unknown to the loader, and that no path
  registered before it resolves to, is reported with the new configuration.
\<close>

theorem registration_not_rolled_back:
  assumes "load_for_file fs p s = Some (r, s1)"
  shows "watched_paths s1 = watched_paths s @ [p] \<and>
         (\<forall>err. r = Config_error err \<longrightarrow>
            loaded_config_files s1 = loaded_config_files s \<and>
            input_path_config_files s1 = input_path_config_files s) \<and>
         (\<forall>(fs2::loader_filesystem) changes s2. refresh fs2 s1 = Some (changes, s2) \<longrightarrow>
            watched_paths s2 = watched_paths s1 \<and>
            (\<exists>e m. canonicalize_path fs2 p = Canonicalized e m)) \<and>
         (\<forall>(fs2::loader_filesystem) err. canonicalize_path fs2 p = Canonicalize_failed err \<longrightarrow> refresh fs2 s1 = None) \<and>
         (\<forall>cs rs rs' s' (fs2::loader_filesystem) changes s2.
            run_loader cs rs s1 = Some (rs', s') \<and> refresh fs2 s' = Some (changes, s2) \<longrightarrow>
            p \<in> set (watched_paths s2) \<and>
            (\<exists>e m. canonicalize_path fs2 p = Canonicalized e m) \<and>
            (\<forall>q. refresh_resolved fs2 p = Some q \<longrightarrow>
               (\<exists>i. find_node q (loaded_config_files s2) = Some i \<and>
                    file_content (snd (loaded_config_files s2 ! i)) = refresh_content fs2 p))) \<and>
         (\<forall>(fs2::loader_filesystem) changes s2 q.
            refresh fs2 s1 = Some (changes, s2) \<and> refresh_resolved fs2 p = Some q \<and>
            find_node q (loaded_config_files s1) = None \<and>
            (\<forall>p' \<in> set (watched_paths s). refresh_resolved fs2 p' \<noteq> Some q) \<longrightarrow>
            (\<exists>i. find_node q (loaded_config_files s2) = Some i \<and>
                 \<lparr>watched_path = p, changed_config = Loaded_config i\<rparr> \<in> set changes))"
proof -
  from assms have a: "watched_paths s1 = watched_paths s @ [p]"
    by (auto simp: load_for_file_def dest: find_and_load_for_input_keeps_watched_paths)
  have b: "\<forall>err. r = Config_error err \<longrightarrow>
            loaded_config_files s1 = loaded_config_files s \<and>
            input_path_config_files s1 = input_path_config_files s"
    using assms
    by (auto simp: load_for_file_def find_and_load_config_file_for_input_def
        find_and_load_config_file_in_directory_and_ancestors_def Let_def
        split: option.splits canonical_path_result.splits prod.splits if_splits)
  have c: "\<forall>(fs2::loader_filesystem) changes s2. refresh fs2 s1 = Some (changes, s2) \<longrightarrow>
            watched_paths s2 = watched_paths s1 \<and>
            (\<exists>e m. canonicalize_path fs2 p = Canonicalized e m)"
  proof (intro allI impI)
    fix fs2 :: loader_filesystem and changes s2
    assume h: "refresh fs2 s1 = Some (changes, s2)"
    then have "refresh fs2 s1 \<noteq> None" by simp
    with refresh_returns [of fs2 s1] a
    have "\<exists>e m. canonicalize_path fs2 p = Canonicalized e m" by simp
    with refresh_watched [OF h]
    show "watched_paths s2 = watched_paths s1 \<and> (\<exists>e m. canonicalize_path fs2 p = Canonicalized e m)"
      by simp
  qed
  have d: "\<forall>(fs2::loader_filesystem) err. canonicalize_path fs2 p = Canonicalize_failed err \<longrightarrow> refresh fs2 s1 = None"
  proof (intro allI impI)
    fix fs2 :: loader_filesystem and err
    assume "canonicalize_path fs2 p = Canonicalize_failed err"
    with a have "\<not> (\<forall>q \<in> set (watched_paths s1). \<exists>e m. canonicalize_path fs2 q = Canonicalized e m)"
      by auto
    with refresh_returns [of fs2 s1] show "refresh fs2 s1 = None" by blast
  qed
  have e: "\<forall>cs rs rs' s' (fs2::loader_filesystem) changes s2.
            run_loader cs rs s1 = Some (rs', s') \<and> refresh fs2 s' = Some (changes, s2) \<longrightarrow>
            p \<in> set (watched_paths s2) \<and>
            (\<exists>e m. canonicalize_path fs2 p = Canonicalized e m) \<and>
            (\<forall>q. refresh_resolved fs2 p = Some q \<longrightarrow>
               (\<exists>i. find_node q (loaded_config_files s2) = Some i \<and>
                    file_content (snd (loaded_config_files s2 ! i)) = refresh_content fs2 p))"
  proof (intro allI impI, elim conjE)
    fix cs rs rs' s' and fs2 :: loader_filesystem and changes s2
    assume run: "run_loader cs rs s1 = Some (rs', s')" and h: "refresh fs2 s' = Some (changes, s2)"
    from run_loader_watched_paths [OF run] a have reg: "p \<in> set (watched_paths s')" by auto
    with refresh_watched [OF h] have 1: "p \<in> set (watched_paths s2)" by simp
    from h have "refresh fs2 s' \<noteq> None" by simp
    with refresh_returns [of fs2 s'] reg
    have 2: "\<exists>e m. canonicalize_path fs2 p = Canonicalized e m" by blast
    from h have rp: "refresh_paths fs2 (watched_paths s') [] s' = Some (changes, s2)"
      by (simp add: refresh_def)
    have 3: "\<forall>q. refresh_resolved fs2 p = Some q \<longrightarrow>
               (\<exists>i. find_node q (loaded_config_files s2) = Some i \<and>
                    file_content (snd (loaded_config_files s2 ! i)) = refresh_content fs2 p)"
      using refresh_paths_content [OF rp reg] by blast
    from 1 2 3 show "p \<in> set (watched_paths s2) \<and>
            (\<exists>e m. canonicalize_path fs2 p = Canonicalized e m) \<and>
            (\<forall>q. refresh_resolved fs2 p = Some q \<longrightarrow>
               (\<exists>i. find_node q (loaded_config_files s2) = Some i \<and>
                    file_content (snd (loaded_config_files s2 ! i)) = refresh_content fs2 p))"
      by blast
  qed
  have f: "\<forall>(fs2::loader_filesystem) changes s2 q.
            refresh fs2 s1 = Some (changes, s2) \<and> refresh_resolved fs2 p = Some q \<and>
            find_node q (loaded_config_files s1) = None \<and>
            (\<forall>p' \<in> set (watched_paths s). refresh_resolved fs2 p' \<noteq> Some q) \<longrightarrow>
            (\<exists>i. find_node q (loaded_config_files s2) = Some i \<and>
                 \<lparr>watched_path = p, changed_config = Loaded_config i\<rparr> \<in> set changes)"
  proof (intro allI impI, elim conjE)
    fix fs2 :: loader_filesystem and changes s2 q
    assume h: "refresh fs2 s1 = Some (changes, s2)" and rq: "refresh_resolved fs2 p = Some q"
      and unknown: "find_node q (loaded_config_files s1) = None"
      and first: "\<forall>p' \<in> set (watched_paths s). refresh_resolved fs2 p' \<noteq> Some q"
    from h a obtain ch1 s' ch2 where
      r1: "refresh_paths fs2 (watched_paths s) [] s1 = Some (ch1, s')"
      and r2: "refresh_path fs2 p s' = Some (ch2, s2)" and ch: "changes = ch1 @ ch2"
      by (auto simp: refresh_def refresh_paths_append split: option.splits)
    from refresh_paths_keeps_unknown [OF r1 unknown first]
    have "find_node q (loaded_config_files s') = None" .
    with refresh_path_round [OF r2] rq
    have "find_node q (loaded_config_files s2) = Some (length (loaded_config_files s'))"
      "ch2 = [\<lparr>watched_path = p, changed_config = Loaded_config (length (loaded_config_files s'))\<rparr>]"
      by simp_all
    with ch show "\<exists>i. find_node q (loaded_config_files s2) = Some i \<and>
                 \<lparr>watched_path = p, changed_config = Loaded_config i\<rparr> \<in> set changes"
      by simp
  qed
  from a b c d e f show ?thesis by blast
qed

theorem registration_not_rolled_back_witness:
  "load_for_file unreachable_loader_fs ''/t/a.js'' new_configuration_loader =
     Some (Config_error ''cannot canonicalize'', a_registered) \<and>
   watched_paths a_registered = [''/t/a.js''] \<and>
   loaded_config_files a_registered = [] \<and>
   refresh unreachable_loader_fs a_registered = None \<and>
   (\<exists>s2. refresh (loader_fs (disk_with_config ''{}'')) a_registered =
           Some ([\<lparr>watched_path = ''/t/a.js'', changed_config = Loaded_config 0\<rparr>], s2) \<and>
         watched_paths s2 = [''/t/a.js''] \<and>
         find_node [''t'', ''quick-lint-js.config''] (loaded_config_files s2) = Some 0 \<and>
         file_content (snd (loaded_config_files s2 ! 0)) = ''{}'')"
proof -
  let ?fs2 = "loader_fs (disk_with_config ''{}'')"
  have 1: "load_for_file unreachable_loader_fs ''/t/a.js'' new_configuration_loader =
     Some (Config_error ''cannot canonicalize'', a_registered)"
    by (simp add: eval_defs)
  note reg = registration_not_rolled_back [OF 1]
  have 2: "canonicalize_path unreachable_loader_fs ''/t/a.js'' =
             Canonicalize_failed ''cannot canonicalize''"
    by (simp add: unreachable_loader_fs_def unreachable_canonicalize_def)
  from reg 2 have 3: "refresh unreachable_loader_fs a_registered = None" by blast
  have 4: "watched_paths a_registered = [''/t/a.js'']" "loaded_config_files a_registered = []"
    by (simp_all add: a_registered_def)
  have "map_option fst (refresh ?fs2 a_registered) =
          Some [\<lparr>watched_path = ''/t/a.js'', changed_config = Loaded_config 0\<rparr>]"
    by code_simp
  then obtain s2 where 5: "refresh ?fs2 a_registered =
      Some ([\<lparr>watched_path = ''/t/a.js'', changed_config = Loaded_config 0\<rparr>], s2)"
    by auto
  have 6: "refresh_resolved ?fs2 ''/t/a.js'' = Some [''t'', ''quick-lint-js.config'']"
    by code_simp
  have 7: "refresh_content ?fs2 ''/t/a.js'' = ''{}''"
    by code_simp
  have 8: "run_loader [] [] a_registered = Some ([], a_registered)" by simp
  have 9: "find_node [''t'', ''quick-lint-js.config''] (loaded_config_files a_registered) = None"
    "\<forall>p' \<in> set (watched_paths new_configuration_loader).
       refresh_resolved ?fs2 p' \<noteq> Some [''t'', ''quick-lint-js.config'']"
    by (simp_all add: a_registered_def new_configuration_loader_def)
  from reg 5 have 10: "watched_paths s2 = watched_paths a_registered" by blast
  from reg 5 6 9 obtain i where i: "find_node [''t'', ''quick-lint-js.config''] (loaded_config_files s2) = Some i"
    "\<lparr>watched_path = ''/t/a.js'', changed_config = Loaded_config i\<rparr> \<in>
       set [\<lparr>watched_path = ''/t/a.js'', changed_config = Loaded_config 0\<rparr>]"
    by blast
  then have i0: "i = 0" by simp
  from reg 8 5 6 obtain j where j: "find_node [''t'', ''quick-lint-js.config''] (loaded_config_files s2) = Some j"
    "file_content (snd (loaded_config_files s2 ! j)) = refresh_content ?fs2 ''/t/a.js''"
    by blast
  from i j i0 7 have 11: "find_node [''t'', ''quick-lint-js.config''] (loaded_config_files s2) = Some 0"
    "file_content (snd (loaded_config_files s2 ! 0)) = ''{}''" by simp_all
  from 1 3 4 5 10 11 show ?thesis by simp
qed

end
